theory Spec2Isabelle
  imports Main "HOL-Library.Word"
begin

unbundle bit_operations_syntax

section \<open>Data model\<close>

type_synonym byte = "8 word"

text \<open>
  Go's \<open>int\<close> is 64 bits wide; every length and position of the codec is bounded by the
  size of a slice in memory, so positions are modelled as \<open>nat\<close>. The values the code
  narrows to \<open>uint32\<close>, \<open>uint16\<close> or \<open>byte\<close> are words of that width.

  A failure is a value: the two package errors, the two \<open>io\<close> sentinels, an
  \<open>errors.New\<close> message, and \<open>Panic\<close> for a run-time panic (index or slice bound out
  of range).
\<close>

datatype error =
    ErrBlockTooLarge
  | ErrCorrupted
  | ErrUnexpectedEOF
  | EOF
  | ErrorNew string
  | Panic

definition minMatchLength :: nat where "minMatchLength = 4"
definition maxMatchLength :: nat where "maxMatchLength = 0xFFFF"
definition maxOffset :: "32 word" where "maxOffset = 0xFFFF"
definition hashLog :: nat where "hashLog = 16"
definition hashSize :: nat where "hashSize = 2 ^ hashLog"
definition hashShift :: nat where "hashShift = 32 - hashLog"
definition defaultBlockSize :: nat where "defaultBlockSize = 4 * 1024 * 1024"
definition maxBlockSize :: nat where "maxBlockSize = 4 * 1024 * 1024"

definition bindE :: "error + 'a \<Rightarrow> ('a \<Rightarrow> error + 'b) \<Rightarrow> error + 'b" where
  "bindE m f = (case m of Inl e \<Rightarrow> Inl e | Inr x \<Rightarrow> f x)"

subsection \<open>Slices\<close>

text \<open>\<open>dst[i] = v\<close>: the store panics when \<open>i\<close> is not below \<open>len(dst)\<close>.\<close>

definition store :: "byte list \<Rightarrow> nat \<Rightarrow> byte \<Rightarrow> error + byte list" where
  "store dst i v = (if i < length dst then Inr (dst[i := v]) else Inl Panic)"

text \<open>
  \<open>copy(dst[pos:], xs)\<close>: slicing panics when \<open>pos > len(dst)\<close>; \<open>copy\<close> itself moves
  \<open>min(len(dst) - pos, len(xs))\<close> bytes and never fails.
\<close>

definition copyAt :: "byte list \<Rightarrow> nat \<Rightarrow> byte list \<Rightarrow> error + byte list" where
  "copyAt dst pos xs =
     (if pos > length dst then Inl Panic
      else Inr (take pos dst @ take (length dst - pos) xs @ drop (pos + length xs) dst))"

text \<open>\<open>src[lo:hi]\<close> for \<open>lo \<le> hi \<le> len(src)\<close>.\<close>

definition slice :: "byte list \<Rightarrow> nat \<Rightarrow> nat \<Rightarrow> byte list" where
  "slice src lo hi = take (hi - lo) (drop lo src)"

subsection \<open>Little-endian integers (\<open>encoding/binary\<close>)\<close>

definition Uint32 :: "byte list \<Rightarrow> 32 word" where
  "Uint32 b = ucast (b ! 0) OR push_bit 8 (ucast (b ! 1))
                OR push_bit 16 (ucast (b ! 2)) OR push_bit 24 (ucast (b ! 3))"

definition Uint16 :: "byte list \<Rightarrow> 16 word" where
  "Uint16 b = ucast (b ! 0) OR push_bit 8 (ucast (b ! 1))"

definition PutUint32 :: "32 word \<Rightarrow> byte list" where
  "PutUint32 v = [ucast v, ucast (drop_bit 8 v), ucast (drop_bit 16 v), ucast (drop_bit 24 v)]"

section \<open>Block compressor\<close>

definition hashSequence :: "32 word \<Rightarrow> 32 word" where
  "hashSequence seq = drop_bit hashShift (seq * 2654435761)"

text \<open>
  The hash table is a slice of \<open>hashSize\<close> 32-bit cells, indexed by
  \<open>hashSequence(seq) & (hashSize - 1)\<close>, which is below \<open>hashSize\<close>: a total map from
  indices to cells.
\<close>

type_synonym hashTable = "nat \<Rightarrow> 32 word"

definition sentinel :: "32 word" where "sentinel = 0xFFFFFFFF"

record cstate =
  c_hashTable :: hashTable
  c_dst :: "byte list"
  c_dstPos :: nat
  c_anchor :: nat
  c_srcPos :: nat

text \<open>
  The match extension loop
  \<open>for matchLen < maxLen && src[srcPos+matchLen] == src[int(ref)+matchLen] { matchLen++ }\<close>.
  An index beyond \<open>src\<close> panics.
\<close>

function matchLoop :: "byte list \<Rightarrow> nat \<Rightarrow> nat \<Rightarrow> nat \<Rightarrow> nat \<Rightarrow> error + nat" where
  "matchLoop src srcPos ref maxLen matchLen =
     (if matchLen < maxLen then
        (if srcPos + matchLen < length src \<and> ref + matchLen < length src then
           (if src ! (srcPos + matchLen) = src ! (ref + matchLen)
            then matchLoop src srcPos ref maxLen (matchLen + 1)
            else Inr matchLen)
         else Inl Panic)
      else Inr matchLen)"
  by pat_completeness auto
termination
  by (relation "measure (\<lambda>(src, srcPos, ref, maxLen, matchLen). maxLen - matchLen)") auto

declare matchLoop.simps [simp del]

text \<open>
  The length extension loop, written out three times in \<open>compressBlock\<close>:
  \<open>for remaining >= 255 { dst[dstPos] = 255; dstPos++; remaining -= 255 }\<close> followed by
  \<open>dst[dstPos] = byte(remaining); dstPos++\<close>.
\<close>

function putLength :: "byte list \<Rightarrow> nat \<Rightarrow> nat \<Rightarrow> error + (byte list \<times> nat)" where
  "putLength dst dstPos remaining =
     (if remaining \<ge> 255 then
        bindE (store dst dstPos 255) (\<lambda>dst'. putLength dst' (dstPos + 1) (remaining - 255))
      else
        bindE (store dst dstPos (word_of_nat remaining)) (\<lambda>dst'. Inr (dst', dstPos + 1)))"
  by pat_completeness auto
termination
  by (relation "measure (\<lambda>(dst, dstPos, remaining). remaining)") auto

declare putLength.simps [simp del]

text \<open>The token byte and the literal part shared by a match sequence and the last one.\<close>

definition literalToken :: "nat \<Rightarrow> byte" where
  "literalToken literalLen = (if literalLen < 15 then push_bit 4 (word_of_nat literalLen) else 0xF0)"

definition matchToken :: "byte \<Rightarrow> nat \<Rightarrow> byte" where
  "matchToken token matchLenCode =
     (if matchLenCode < 15 then token OR word_of_nat matchLenCode else token OR 0x0F)"

definition putLiterals :: "byte list \<Rightarrow> byte list \<Rightarrow> nat \<Rightarrow> byte \<Rightarrow> nat \<Rightarrow> nat
    \<Rightarrow> error + (byte list \<times> nat)" where
  "putLiterals src dst dstPos token anchor srcPos =
     (let literalLen = srcPos - anchor in
      bindE (store dst dstPos token) (\<lambda>dst1.
      bindE (if literalLen \<ge> 15 then putLength dst1 (dstPos + 1) (literalLen - 15)
             else Inr (dst1, dstPos + 1)) (\<lambda>(dst2, dstPos2).
      if literalLen > 0 then
        bindE (copyAt dst2 dstPos2 (slice src anchor srcPos)) (\<lambda>dst3. Inr (dst3, dstPos2 + literalLen))
      else Inr (dst2, dstPos2))))"

text \<open>Lines 95 to 147: one sequence with its match.\<close>

definition emitSequence :: "byte list \<Rightarrow> byte list \<Rightarrow> nat \<Rightarrow> nat \<Rightarrow> nat \<Rightarrow> 32 word \<Rightarrow> nat
    \<Rightarrow> error + (byte list \<times> nat)" where
  "emitSequence src dst dstPos anchor srcPos ref matchLen =
     (let literalLen = srcPos - anchor;
          matchLenCode = matchLen - minMatchLength;
          token = matchToken (literalToken literalLen) matchLenCode
      in if dstPos + 1 + literalLen + 2 > length dst then Inl ErrBlockTooLarge
         else
           bindE (putLiterals src dst dstPos token anchor srcPos) (\<lambda>(dst3, dstPos3).
           let offset = int srcPos - int (unat ref) in
           bindE (store dst3 dstPos3 (word_of_int offset)) (\<lambda>dst4.
           bindE (store dst4 (dstPos3 + 1) (word_of_int (offset div 256))) (\<lambda>dst5.
           if matchLenCode \<ge> 15 then putLength dst5 (dstPos3 + 2) (matchLenCode - 15)
           else Inr (dst5, dstPos3 + 2)))))"

text \<open>
  Lines 71 to 93: the hash probe and the match extension. The result is the updated
  table and the match found, if any.
\<close>

definition findMatch :: "byte list \<Rightarrow> hashTable \<Rightarrow> nat
    \<Rightarrow> error + (hashTable \<times> (32 word \<times> nat) option)" where
  "findMatch src hashTable srcPos =
     (let seq = Uint32 (drop srcPos src);
          h = unat (hashSequence seq AND (word_of_nat (hashSize - 1)));
          ref = hashTable h;
          hashTable' = hashTable(h := word_of_nat srcPos)
      in if ref = sentinel \<or> word_of_nat srcPos - ref > maxOffset then Inr (hashTable', None)
         else
           bindE (matchLoop src srcPos (unat ref) (min (length src - srcPos) maxMatchLength) 0)
             (\<lambda>matchLen.
                if matchLen < minMatchLength then Inr (hashTable', None)
                else Inr (hashTable', Some (ref, matchLen))))"

text \<open>One iteration of the scan loop, entered with \<open>srcPos \<le> srcLen - minMatchLength\<close>.\<close>

definition scanStep :: "byte list \<Rightarrow> cstate \<Rightarrow> error + cstate" where
  "scanStep src st =
     bindE (findMatch src (c_hashTable st) (c_srcPos st)) (\<lambda>(hashTable', m).
       case m of
         None \<Rightarrow> Inr (st\<lparr>c_hashTable := hashTable', c_srcPos := c_srcPos st + 1\<rparr>)
       | Some (ref, matchLen) \<Rightarrow>
           bindE (emitSequence src (c_dst st) (c_dstPos st) (c_anchor st) (c_srcPos st) ref matchLen)
             (\<lambda>(dst', dstPos').
                Inr (st\<lparr>c_hashTable := hashTable', c_dst := dst', c_dstPos := dstPos',
                        c_srcPos := c_srcPos st + matchLen,
                        c_anchor := c_srcPos st + matchLen\<rparr>)))"

definition scanGuard :: "byte list \<Rightarrow> cstate \<Rightarrow> bool" where
  "scanGuard src st \<longleftrightarrow> int (c_srcPos st) \<le> int (length src) - int minMatchLength"

lemma bindE_simps [simp]:
  "bindE (Inl e) f = Inl e"
  "bindE (Inr x) f = f x"
  by (simp_all add: bindE_def)

lemma bindE_Inr_iff:
  "bindE m f = Inr y \<longleftrightarrow> (\<exists>x. m = Inr x \<and> f x = Inr y)"
  by (cases m) simp_all

lemma findMatch_Some_min:
  assumes "findMatch src hashTable srcPos = Inr (hashTable', Some (ref, matchLen))"
  shows "minMatchLength \<le> matchLen"
  using assms
  by (auto simp: findMatch_def Let_def bindE_Inr_iff split: if_splits)

lemma scanStep_advances:
  assumes "scanStep src st = Inr st'"
  shows "c_srcPos st < c_srcPos st'"
proof -
  from assms obtain hashTable' m where
    fm: "findMatch src (c_hashTable st) (c_srcPos st) = Inr (hashTable', m)"
    by (auto simp: scanStep_def bindE_Inr_iff)
  show ?thesis
  proof (cases m)
    case None
    with assms fm show ?thesis by (auto simp: scanStep_def)
  next
    case (Some rm)
    obtain ref matchLen where rm: "rm = (ref, matchLen)" by (cases rm)
    from fm Some rm have "minMatchLength \<le> matchLen" by (auto dest: findMatch_Some_min)
    with assms fm Some rm show ?thesis
      by (auto simp: scanStep_def bindE_Inr_iff minMatchLength_def)
  qed
qed

text \<open>The scan loop \<open>for srcPos <= srcLen-minMatchLength\<close>.\<close>

function scanLoop :: "byte list \<Rightarrow> cstate \<Rightarrow> error + cstate" where
  "scanLoop src st =
     (if scanGuard src st then
        (case scanStep src st of Inl e \<Rightarrow> Inl e | Inr st' \<Rightarrow> scanLoop src st')
      else Inr st)"
  by pat_completeness auto
termination
proof (relation "measure (\<lambda>(src, st). length src - c_srcPos st)")
  show "wf (measure (\<lambda>(src, st). length src - c_srcPos st))" by simp
next
  fix src :: "byte list" and st st' :: cstate
  assume g: "scanGuard src st" and s: "scanStep src st = Inr st'"
  from g have "c_srcPos st < length src" by (simp add: scanGuard_def minMatchLength_def)
  moreover from s have "c_srcPos st < c_srcPos st'" by (rule scanStep_advances)
  ultimately show "((src, st'), (src, st)) \<in> measure (\<lambda>(src, st). length src - c_srcPos st)"
    by simp
qed

declare scanLoop.simps [simp del]

text \<open>
  \<open>compressBlock\<close>. The table is reset in place, so the caller sees the table the scan
  left behind. After the scan loop the pending literals, if any, are written as a last
  sequence without a match (lines 153 to 182); there \<open>anchor < srcLen\<close>, so the literal
  copy is never skipped.
\<close>

definition compressBlock :: "byte list \<Rightarrow> byte list \<Rightarrow> hashTable
    \<Rightarrow> error + (nat \<times> byte list \<times> hashTable)" where
  "compressBlock src dst hashTable =
     (if length src = 0 then Inr (0, dst, hashTable)
      else
        bindE (scanLoop src \<lparr>c_hashTable = (\<lambda>i. sentinel), c_dst = dst, c_dstPos = 0,
                              c_anchor = 0, c_srcPos = 0\<rparr>) (\<lambda>st.
        if c_anchor st < length src then
          (let literalLen = length src - c_anchor st;
               token = literalToken literalLen
           in if c_dstPos st + 1 + literalLen > length (c_dst st) then Inl ErrBlockTooLarge
              else
                bindE (putLiterals src (c_dst st) (c_dstPos st) token (c_anchor st) (length src))
                  (\<lambda>(dst', dstPos'). Inr (dstPos', dst', c_hashTable st)))
        else Inr (c_dstPos st, c_dst st, c_hashTable st)))"

section \<open>Block decompressor\<close>

record dstate =
  d_dst :: "byte list"
  d_srcPos :: nat
  d_dstPos :: nat

text \<open>
  What one iteration of the sequence loop does: go on with the next sequence, leave the
  loop at the \<open>break\<close> after the last literals, or return an error together with
  \<open>dstPos\<close>.
\<close>

datatype dstep = DNext dstate | DBreak dstate | DFail dstate error

text \<open>
  The length continuation loop, written out twice in \<open>decompressBlock\<close>; \<open>None\<close> is the
  return of \<open>io.ErrUnexpectedEOF\<close>.
\<close>

function getLength :: "byte list \<Rightarrow> nat \<Rightarrow> nat \<Rightarrow> (nat \<times> nat) option" where
  "getLength src srcPos len =
     (if srcPos \<ge> length src then None
      else if src ! srcPos \<noteq> 255 then Some (len + unat (src ! srcPos), srcPos + 1)
      else getLength src (srcPos + 1) (len + unat (src ! srcPos)))"
  by pat_completeness auto
termination
  by (relation "measure (\<lambda>(src, srcPos, len). length src - srcPos)") auto

declare getLength.simps [simp del]

text \<open>\<open>copy(dst[pos:], xs)\<close> where \<open>pos \<le> len(dst)\<close> has been checked before.\<close>

definition copyInto :: "byte list \<Rightarrow> nat \<Rightarrow> byte list \<Rightarrow> byte list" where
  "copyInto dst pos xs = take pos dst @ take (length dst - pos) xs @ drop (pos + length xs) dst"

text \<open>The byte loop \<open>for i := 0; i < matchLen; i++ { dst[dstPos] = dst[ref+i]; dstPos++ }\<close>.\<close>

function copyLoop :: "byte list \<Rightarrow> nat \<Rightarrow> nat \<Rightarrow> nat \<Rightarrow> nat \<Rightarrow> byte list \<times> nat" where
  "copyLoop dst ref dstPos matchLen i =
     (if i < matchLen then copyLoop (dst[dstPos := dst ! (ref + i)]) ref (dstPos + 1) matchLen (i + 1)
      else (dst, dstPos))"
  by pat_completeness auto
termination
  by (relation "measure (\<lambda>(dst, ref, dstPos, matchLen, i). matchLen - i)") auto

declare copyLoop.simps [simp del]

text \<open>
  One iteration of the sequence loop in two parts. Lines 255 to 291: the token, the
  literal length and the literals, ending at the \<open>break\<close> of the last sequence, at an
  error, or before the offset of a match.
\<close>

datatype lstep = LMatch byte dstate | LBreak dstate | LFail dstate error

definition decodeLiterals :: "byte list \<Rightarrow> dstate \<Rightarrow> lstep" where
  "decodeLiterals src st =
     (let dst = d_dst st; srcPos = d_srcPos st; dstPos = d_dstPos st in
      if dstPos \<ge> length dst then LFail st ErrBlockTooLarge
      else
        let token = src ! srcPos;
            litLen0 = unat (drop_bit 4 token)
        in case (if litLen0 = 15 then getLength src (srcPos + 1) litLen0
                 else Some (litLen0, srcPos + 1)) of
             None \<Rightarrow> LFail st ErrUnexpectedEOF
           | Some (litLen, srcPos2) \<Rightarrow>
               if srcPos2 + litLen > length src then LFail st ErrUnexpectedEOF
               else if dstPos + litLen > length dst then LFail st ErrBlockTooLarge
               else
                 let st3 = (if litLen > 0
                            then \<lparr>d_dst = copyInto dst dstPos (slice src srcPos2 (srcPos2 + litLen)),
                                  d_srcPos = srcPos2 + litLen, d_dstPos = dstPos + litLen\<rparr>
                            else \<lparr>d_dst = dst, d_srcPos = srcPos2, d_dstPos = dstPos\<rparr>)
                 in if d_srcPos st3 \<ge> length src then LBreak st3 else LMatch token st3)"

text \<open>Lines 293 to 335: the offset, the match length and the copy of the match.\<close>

definition decodeMatch :: "byte list \<Rightarrow> byte \<Rightarrow> dstate \<Rightarrow> dstep" where
  "decodeMatch src token st3 =
     (let dst3 = d_dst st3; srcPos3 = d_srcPos st3; dstPos3 = d_dstPos st3 in
      if srcPos3 + 2 > length src then DFail st3 ErrUnexpectedEOF
      else
        let offset = unat (Uint16 (drop srcPos3 src));
            matchLen0 = unat (token AND 0x0F)
        in if offset = 0 \<or> offset > dstPos3 then DFail st3 ErrCorrupted
           else
             case (if matchLen0 = 15 then getLength src (srcPos3 + 2) matchLen0
                   else Some (matchLen0, srcPos3 + 2)) of
               None \<Rightarrow> DFail st3 ErrUnexpectedEOF
             | Some (matchLen1, srcPos5) \<Rightarrow>
                 let matchLen = matchLen1 + minMatchLength in
                 if dstPos3 + matchLen > length dst3 then DFail st3 ErrBlockTooLarge
                 else if int dstPos3 - int offset < 0 then DFail st3 ErrCorrupted
                 else
                   let ref = dstPos3 - offset in
                   if offset \<ge> matchLen then
                     DNext \<lparr>d_dst = copyInto dst3 dstPos3 (slice dst3 ref (ref + matchLen)),
                            d_srcPos = srcPos5, d_dstPos = dstPos3 + matchLen\<rparr>
                   else
                     (case copyLoop dst3 ref dstPos3 matchLen 0 of
                        (dst6, dstPos6) \<Rightarrow>
                          DNext \<lparr>d_dst = dst6, d_srcPos = srcPos5, d_dstPos = dstPos6\<rparr>))"

definition decodeStep :: "byte list \<Rightarrow> dstate \<Rightarrow> dstep" where
  "decodeStep src st =
     (case decodeLiterals src st of
        LMatch token st3 \<Rightarrow> decodeMatch src token st3
      | LBreak st3 \<Rightarrow> DBreak st3
      | LFail st' e \<Rightarrow> DFail st' e)"

lemma getLength_advances:
  "getLength src srcPos len = Some (len', srcPos') \<Longrightarrow> srcPos < srcPos'"
proof (induction src srcPos len rule: getLength.induct)
  case (1 src srcPos len)
  show ?case
  proof (cases "srcPos \<ge> length src")
    case True
    with "1.prems" show ?thesis by (simp add: getLength.simps)
  next
    case False
    show ?thesis
    proof (cases "src ! srcPos \<noteq> 255")
      case True
      with False "1.prems" show ?thesis by (simp add: getLength.simps [of src srcPos])
    next
      case eq: False
      with False "1.prems" have "getLength src (srcPos + 1) (len + unat (src ! srcPos)) = Some (len', srcPos')"
        by (simp add: getLength.simps [of src srcPos])
      with "1.IH" False eq have "srcPos + 1 < srcPos'" by simp
      then show ?thesis by simp
    qed
  qed
qed

lemma decodeLiterals_advances:
  assumes "decodeLiterals src st = LMatch token st3"
  shows "d_srcPos st < d_srcPos st3"
  using assms
  by (auto simp: decodeLiterals_def Let_def split: if_splits option.splits prod.splits
      dest!: getLength_advances)

lemma decodeMatch_advances:
  assumes "decodeMatch src token st3 = DNext st'"
  shows "d_srcPos st3 < d_srcPos st'"
  using assms
  by (auto simp: decodeMatch_def Let_def split: if_splits option.splits prod.splits
      dest!: getLength_advances)

lemma decodeStep_advances:
  assumes "decodeStep src st = DNext st'"
  shows "d_srcPos st < d_srcPos st'"
proof -
  from assms obtain token st3 where
    "decodeLiterals src st = LMatch token st3" "decodeMatch src token st3 = DNext st'"
    by (auto simp: decodeStep_def split: lstep.splits)
  then show ?thesis
    using decodeLiterals_advances decodeMatch_advances by fastforce
qed

text \<open>The sequence loop \<open>for srcPos < srcLen\<close> with the value the function returns.\<close>

function decodeLoop :: "byte list \<Rightarrow> dstate \<Rightarrow> dstate \<times> error option" where
  "decodeLoop src st =
     (if d_srcPos st < length src then
        (case decodeStep src st of
           DNext st' \<Rightarrow> decodeLoop src st'
         | DBreak st' \<Rightarrow> (st', None)
         | DFail st' e \<Rightarrow> (st', Some e))
      else (st, None))"
  by pat_completeness auto
termination
proof (relation "measure (\<lambda>(src, st). length src - d_srcPos st)")
  show "wf (measure (\<lambda>(src, st). length src - d_srcPos st))" by simp
next
  fix src :: "byte list" and st st' :: dstate
  assume "d_srcPos st < length src" and "decodeStep src st = DNext st'"
  then show "((src, st'), (src, st)) \<in> measure (\<lambda>(src, st). length src - d_srcPos st)"
    by (auto dest: decodeStep_advances)
qed

declare decodeLoop.simps [simp del]

text \<open>
  \<open>decompressBlock\<close> returns \<open>dstPos\<close> and the error; the caller's buffer \<open>dst\<close> has been
  written in place.
\<close>

definition decompressBlock :: "byte list \<Rightarrow> byte list \<Rightarrow> nat \<times> error option \<times> byte list" where
  "decompressBlock src dst =
     (case decodeLoop src \<lparr>d_dst = dst, d_srcPos = 0, d_dstPos = 0\<rparr> of
        (st, err) \<Rightarrow> (d_dstPos st, err, d_dst st))"

section \<open>Frame codec\<close>

definition magic :: "32 word" where "magic = 0x184D2204"
definition endMark :: "32 word" where "endMark = 0x00000000"
definition flgByte :: byte where "flgByte = 0x60"
definition bdType :: byte where "bdType = 0x70"

subsection \<open>xxHash32\<close>

text \<open>
  Modelled from the spec: the header checksum is \<open>xxhash32\<close> of the bytes \<open>FLG || BD\<close> at
  seed 0. The hash is the imported package \<open>github.com/pierrec/xxHash/xxHash32\<close>, which
  is not part of the sources; \<open>xxHash32\<close> below is the XXH32 algorithm that package
  implements (\<open>New(seed)\<close>, \<open>Write\<close>, \<open>Sum32\<close> on the whole input).
\<close>

definition prime32_1 :: "32 word" where "prime32_1 = 2654435761"
definition prime32_2 :: "32 word" where "prime32_2 = 2246822519"
definition prime32_3 :: "32 word" where "prime32_3 = 3266489917"
definition prime32_4 :: "32 word" where "prime32_4 = 668265263"
definition prime32_5 :: "32 word" where "prime32_5 = 374761393"

definition xxhRound :: "32 word \<Rightarrow> 32 word \<Rightarrow> 32 word" where
  "xxhRound acc inp = word_rotl 13 (acc + inp * prime32_2) * prime32_1"

fun xxhStripes :: "32 word \<times> 32 word \<times> 32 word \<times> 32 word \<Rightarrow> byte list
    \<Rightarrow> (32 word \<times> 32 word \<times> 32 word \<times> 32 word) \<times> byte list" where
  "xxhStripes (v1, v2, v3, v4) (b0 # b1 # b2 # b3 # b4 # b5 # b6 # b7 # b8 # b9 # b10 # b11
       # b12 # b13 # b14 # b15 # rest) =
     xxhStripes (xxhRound v1 (Uint32 [b0, b1, b2, b3]), xxhRound v2 (Uint32 [b4, b5, b6, b7]),
                 xxhRound v3 (Uint32 [b8, b9, b10, b11]), xxhRound v4 (Uint32 [b12, b13, b14, b15]))
       rest"
| "xxhStripes v rest = (v, rest)"

fun xxhTail :: "32 word \<Rightarrow> byte list \<Rightarrow> 32 word" where
  "xxhTail h (b0 # b1 # b2 # b3 # rest) =
     xxhTail (word_rotl 17 (h + Uint32 [b0, b1, b2, b3] * prime32_3) * prime32_4) rest"
| "xxhTail h (b # rest) = xxhTail (word_rotl 11 (h + ucast b * prime32_5) * prime32_1) rest"
| "xxhTail h [] = h"

definition xxhAvalanche :: "32 word \<Rightarrow> 32 word" where
  "xxhAvalanche h =
     (let h1 = (h XOR drop_bit 15 h) * prime32_2;
          h2 = (h1 XOR drop_bit 13 h1) * prime32_3
      in h2 XOR drop_bit 16 h2)"

definition xxHash32 :: "32 word \<Rightarrow> byte list \<Rightarrow> 32 word" where
  "xxHash32 seed input =
     (let (h, rest) =
            (if length input \<ge> 16 then
               (case xxhStripes (seed + prime32_1 + prime32_2, seed + prime32_2, seed,
                                 seed - prime32_1) input of
                  ((v1, v2, v3, v4), rest) \<Rightarrow>
                    (word_rotl 1 v1 + word_rotl 7 v2 + word_rotl 12 v3 + word_rotl 18 v4, rest))
             else (seed + prime32_5, input))
      in xxhAvalanche (xxhTail (h + word_of_nat (length input)) rest))"

subsection \<open>Header and end-mark\<close>

definition getHeaderChecksum :: "byte list \<Rightarrow> byte" where
  "getHeaderChecksum frameHeader = ucast (drop_bit 8 (xxHash32 0 frameHeader) AND 0xFF)"

text \<open>
  The destination \<open>io.Writer\<close> is modelled by the bytes written to it so far; it accepts
  every write, so the error branches of the writes to it are never taken.
\<close>

definition WriteFrameHeader :: "byte list \<Rightarrow> byte list" where
  "WriteFrameHeader w = w @ (PutUint32 magic @ [flgByte, bdType, getHeaderChecksum [flgByte, bdType]])"

definition WriteFrameEndMark :: "byte list \<Rightarrow> byte list" where
  "WriteFrameEndMark w = w @ PutUint32 endMark"

record DecodedFrameHeader =
  Magic :: "32 word"
  Version :: byte
  BlocksIndependentFlag :: bool
  BlocksChecksumFlag :: bool
  ContentSizeFlag :: bool
  ContentChecksumFlag :: bool
  DictIDFlag :: bool
  ContentSize :: "64 word"
  DictID :: "32 word"
  BlockMaxSize :: "32 word"

text \<open>
  The source \<open>io.Reader\<close> of the decoder is modelled by the bytes it has not delivered
  yet; it delivers them all and then reports \<open>io.EOF\<close>. \<open>io.ReadFull(r, buf)\<close> with
  \<open>len(buf) = n\<close> returns the next \<open>n\<close> bytes, \<open>io.EOF\<close> when none is left and
  \<open>io.ErrUnexpectedEOF\<close> when fewer than \<open>n\<close> are; the reader is drained then.
\<close>

definition ReadFull :: "byte list \<Rightarrow> nat \<Rightarrow> (error + byte list) \<times> byte list" where
  "ReadFull r n =
     (if n \<le> length r then (Inr (take n r), drop n r)
      else (Inl (if r = [] then EOF else ErrUnexpectedEOF), []))"

definition Uint64 :: "byte list \<Rightarrow> 64 word" where
  "Uint64 b = ucast (b ! 0) OR push_bit 8 (ucast (b ! 1)) OR push_bit 16 (ucast (b ! 2))
                OR push_bit 24 (ucast (b ! 3)) OR push_bit 32 (ucast (b ! 4))
                OR push_bit 40 (ucast (b ! 5)) OR push_bit 48 (ucast (b ! 6))
                OR push_bit 56 (ucast (b ! 7))"

definition blockMaxSizeOf :: "byte \<Rightarrow> (32 word) option" where
  "blockMaxSizeOf blockMaxSizeSelector =
     (if blockMaxSizeSelector = 4 then Some (push_bit 10 64)
      else if blockMaxSizeSelector = 5 then Some (push_bit 10 256)
      else if blockMaxSizeSelector = 6 then Some (push_bit 20 1)
      else if blockMaxSizeSelector = 7 then Some (push_bit 20 4)
      else None)"

definition ReadFrameHeader :: "byte list \<Rightarrow> (error + DecodedFrameHeader) \<times> byte list" where
  "ReadFrameHeader r =
     (case ReadFull r 7 of
        (Inl err, r1) \<Rightarrow> (Inl err, r1)
      | (Inr header, r1) \<Rightarrow>
          let magicNum = Uint32 (take 4 header) in
          if magicNum \<noteq> magic then (Inl ErrCorrupted, r1)
          else
            let flg = header ! 4;
                bdByte = header ! 5;
                version = drop_bit 6 flg AND 0x03
            in if version \<noteq> 1 then (Inl (ErrorNew ''lz4: invalid version''), r1)
               else
                 let blocksIndependentFlag = (flg AND 0x20 \<noteq> 0);
                     blocksChecksumFlag = (flg AND 0x10 \<noteq> 0);
                     contentSizeFlag = (flg AND 0x08 \<noteq> 0);
                     contentChecksumFlag = (flg AND 0x04 \<noteq> 0);
                     dictIDFlag = (flg AND 0x01 \<noteq> 0)
                 in case blockMaxSizeOf (drop_bit 4 bdByte AND 0x0F) of
                      None \<Rightarrow> (Inl (ErrorNew ''lz4: invalid block maximum size''), r1)
                    | Some blockMaxSize \<Rightarrow>
                        let result = \<lparr>Magic = magicNum, Version = version,
                                       BlocksIndependentFlag = blocksIndependentFlag,
                                       BlocksChecksumFlag = blocksChecksumFlag,
                                       ContentSizeFlag = contentSizeFlag,
                                       ContentChecksumFlag = contentChecksumFlag,
                                       DictIDFlag = dictIDFlag,
                                       ContentSize = 0, DictID = 0,
                                       BlockMaxSize = blockMaxSize\<rparr>
                        in case (if contentSizeFlag then
                                   (case ReadFull r1 8 of
                                      (Inl err, r2) \<Rightarrow> (Inl err, r2)
                                    | (Inr contentSizeBytes, r2) \<Rightarrow>
                                        (Inr (result\<lparr>ContentSize := Uint64 contentSizeBytes\<rparr>), r2))
                                 else (Inr result, r1)) of
                             (Inl err, r2) \<Rightarrow> (Inl err, r2)
                           | (Inr result2, r2) \<Rightarrow>
                               if dictIDFlag then
                                 (case ReadFull r2 4 of
                                    (Inl err, r3) \<Rightarrow> (Inl err, r3)
                                  | (Inr dictIDBytes, r3) \<Rightarrow>
                                      (Inr (result2\<lparr>DictID := Uint32 dictIDBytes\<rparr>), r3))
                               else (Inr result2, r2))"

section \<open>Streaming adapters\<close>

subsection \<open>Writer\<close>

text \<open>
  \<open>w_dst\<close> is what has been written to the destination so far. The field \<open>blockSize\<close>
  is set to \<open>defaultBlockSize\<close> by \<open>NewWriter\<close>, the only constructor, and never
  assigned again: the model reads the constant.
\<close>

record writer =
  w_dst :: "byte list"
  w_hashTable :: hashTable
  w_headerWritten :: bool

definition NewWriter :: "byte list \<Rightarrow> writer" where
  "NewWriter dst = \<lparr>w_dst = dst, w_hashTable = (\<lambda>i. 0), w_headerWritten = False\<rparr>"

text \<open>
  The loop \<open>for len(p) > 0\<close> of \<open>Write\<close>. \<open>compressed[:n]\<close> panics when \<open>n\<close> exceeds the
  buffer. After a failed \<open>compressBlock\<close> the table is in an intermediate state, which the
  reset of the next call hides.
\<close>

function writeLoop :: "writer \<Rightarrow> byte list \<Rightarrow> nat \<Rightarrow> writer \<times> nat \<times> error option" where
  "writeLoop w p totalWritten =
     (if length p > 0 then
        (let chunkSize = (if defaultBlockSize > length p then length p else defaultBlockSize);
             worstCaseSize = chunkSize + (chunkSize div 255) + 16;
             compressed = replicate worstCaseSize (0 :: byte)
         in case compressBlock (take chunkSize p) compressed (w_hashTable w) of
              Inl err \<Rightarrow> (w, totalWritten, Some err)
            | Inr (n, compressed', hashTable') \<Rightarrow>
                if n > length compressed' then (w\<lparr>w_hashTable := hashTable'\<rparr>, totalWritten, Some Panic)
                else
                  writeLoop (w\<lparr>w_dst := w_dst w @ PutUint32 (word_of_nat n) @ take n compressed',
                                w_hashTable := hashTable'\<rparr>)
                    (drop chunkSize p) (totalWritten + chunkSize))
      else (w, totalWritten, None))"
  by pat_completeness auto
termination
  by (relation "measure (\<lambda>(w, p, totalWritten). length p)")
     (auto simp: defaultBlockSize_def)

declare writeLoop.simps [simp del]

definition Write :: "writer \<Rightarrow> byte list \<Rightarrow> writer \<times> nat \<times> error option" where
  "Write w p =
     writeLoop (if \<not> w_headerWritten w
                then w\<lparr>w_dst := WriteFrameHeader (w_dst w), w_headerWritten := True\<rparr>
                else w) p 0"

definition Close :: "writer \<Rightarrow> writer" where
  "Close w =
     (let w1 = (if \<not> w_headerWritten w
                then w\<lparr>w_dst := WriteFrameHeader (w_dst w), w_headerWritten := True\<rparr>
                else w)
      in w1\<lparr>w_dst := WriteFrameEndMark (w_dst w1)\<rparr>)"

text \<open>
  \<open>CompressStream\<close>. The source reader is modelled by the chunks its successive \<open>Read\<close>
  calls deliver into the 64 KiB buffer (each of at most \<open>64 * 1024\<close> bytes, possibly
  empty), followed by \<open>io.EOF\<close>. The deferred \<open>Close\<close> runs on every return and its
  error is dropped. The result is the destination and the error returned.
\<close>

fun compressLoop :: "writer \<Rightarrow> byte list list \<Rightarrow> writer \<times> error option" where
  "compressLoop w [] = (w, None)"
| "compressLoop w (buf # src) =
     (if length buf > 0 then
        (case Write w buf of
           (w', n, Some err) \<Rightarrow> (w', Some err)
         | (w', n, None) \<Rightarrow> compressLoop w' src)
      else compressLoop w src)"

definition CompressStream :: "byte list list \<Rightarrow> byte list \<Rightarrow> byte list \<times> error option" where
  "CompressStream src dst =
     (case compressLoop (NewWriter dst) src of (w, err) \<Rightarrow> (w_dst (Close w), err))"

subsection \<open>Reader\<close>

text \<open>
  \<open>r_src\<close> is what the source has not delivered yet. \<open>blockSize\<close> is \<open>defaultBlockSize\<close>
  and \<open>buffer\<close> has \<open>maxBlockSize\<close> bytes, both set by \<open>NewReader\<close> and never assigned
  again. \<open>leftover\<close> is a slice of the data of the last block; \<open>nil\<close> is the empty list,
  which the test \<open>leftoverPos < len(leftover)\<close> does not tell from an empty slice. An
  uncompressed block's leftover shares memory with \<open>buffer\<close>, which is overwritten only
  after the leftover has been drained.
\<close>

record reader =
  r_src :: "byte list"
  r_leftover :: "byte list"
  r_leftoverPos :: nat
  r_eof :: bool
  r_headerRead :: bool

definition NewReader :: "byte list \<Rightarrow> reader" where
  "NewReader src = \<lparr>r_src = src, r_leftover = [], r_leftoverPos = 0, r_eof = False,
                     r_headerRead = False\<rparr>"

text \<open>
  Lines 399 to 439, the part of the block loop that reads one block record from the
  source: the length prefix (an error there is kept apart, since the loop treats
  \<open>io.EOF\<close> at this place specially), the end-mark, and the payload, decoded into a fresh
  buffer of \<open>blockSize\<close> bytes unless the prefix marks it as uncompressed.
\<close>

datatype blockRead = SizeErr error | BlockEnd | BlockErr error | BlockData "byte list"

definition readBlock :: "byte list \<Rightarrow> blockRead \<times> byte list" where
  "readBlock src =
     (case ReadFull src 4 of
        (Inl err, src1) \<Rightarrow> (SizeErr err, src1)
      | (Inr sizeBuf, src1) \<Rightarrow>
          let compressedSize0 = Uint32 sizeBuf in
          if compressedSize0 = 0 then (BlockEnd, src1)
          else
            let uncompressed = (compressedSize0 AND 0x80000000 \<noteq> 0);
                compressedSize = (if uncompressed then compressedSize0 AND NOT 0x80000000
                                  else compressedSize0)
            in if compressedSize > word_of_nat maxBlockSize then (BlockErr ErrBlockTooLarge, src1)
               else
                 (case ReadFull src1 (unat compressedSize) of
                    (Inl err, src2) \<Rightarrow> (BlockErr err, src2)
                  | (Inr payload, src2) \<Rightarrow>
                      if uncompressed then (BlockData payload, src2)
                      else
                        (case decompressBlock payload (replicate defaultBlockSize 0) of
                           (n, Some err, decompressed) \<Rightarrow> (BlockErr err, src2)
                         | (n, None, decompressed) \<Rightarrow> (BlockData (take n decompressed), src2))))"

lemma readBlock_length:
  "readBlock src = (res, src') \<Longrightarrow> length src' \<le> length src"
  "readBlock src = (BlockData data, src') \<Longrightarrow> length src' < length src"
  "readBlock src = (BlockEnd, src') \<Longrightarrow> length src' < length src"
  by (auto simp: readBlock_def ReadFull_def Let_def split: if_splits prod.splits option.splits)

text \<open>
  The block loop \<open>for totalRead < len(p) && !r.eof\<close> of \<open>Read\<close>; \<open>out\<close> is
  \<open>p[:totalRead]\<close> and \<open>plen\<close> is \<open>len(p)\<close>.
\<close>

function readLoop :: "reader \<Rightarrow> nat \<Rightarrow> byte list \<Rightarrow> reader \<times> byte list \<times> error option" where
  "readLoop r plen out =
     (if length out < plen \<and> \<not> r_eof r then
        (case readBlock (r_src r) of
           (SizeErr err, src1) \<Rightarrow>
             if err = EOF \<and> length out > 0 then (r\<lparr>r_src := src1\<rparr>, out, None)
             else (r\<lparr>r_src := src1\<rparr>, out, Some err)
         | (BlockEnd, src1) \<Rightarrow> (r\<lparr>r_src := src1, r_eof := True\<rparr>, out, None)
         | (BlockErr err, src2) \<Rightarrow> (r\<lparr>r_src := src2\<rparr>, out, Some err)
         | (BlockData data, src2) \<Rightarrow>
             let remaining = plen - length out in
             if length data > remaining then
               (r\<lparr>r_src := src2, r_leftover := drop remaining data, r_leftoverPos := 0\<rparr>,
                out @ take remaining data, None)
             else readLoop (r\<lparr>r_src := src2\<rparr>) plen (out @ data))
      else (r, out, None))"
  by pat_completeness auto
termination
  by (relation "measure (\<lambda>(r, plen, out). length (r_src r))")
     (auto dest: readBlock_length(2) [OF sym])

declare readLoop.simps [simp del]

text \<open>The header check at the first \<open>Read\<close> (lines 346 to 374).\<close>

definition checkHeader :: "DecodedFrameHeader \<Rightarrow> error option" where
  "checkHeader header =
     (if Version header \<noteq> 1 then Some (ErrorNew ''invalid LZ4 version'')
      else if \<not> BlocksIndependentFlag header
        then Some (ErrorNew ''blocks independent flag must be enabled'')
      else if BlocksChecksumFlag header
        then Some (ErrorNew ''blocks checksum flag is not supported'')
      else if ContentSizeFlag header
        then Some (ErrorNew ''content size flag is not supported'')
      else if DictIDFlag header
        then Some (ErrorNew ''dict ID flag is not supported'')
      else if ContentSize header > 0
        then Some (ErrorNew ''content size is not supported'')
      else if DictID header > 0
        then Some (ErrorNew ''dict ID is not supported'')
      else None)"

text \<open>The leftover part and the block loop of \<open>Read\<close> (lines 376 to 459).\<close>

definition readBody :: "reader \<Rightarrow> nat \<Rightarrow> reader \<times> byte list \<times> error option" where
  "readBody r plen =
     (if r_leftoverPos r < length (r_leftover r) then
        (let toCopy = (if length (r_leftover r) - r_leftoverPos r > plen then plen
                       else length (r_leftover r) - r_leftoverPos r);
             out = slice (r_leftover r) (r_leftoverPos r) (r_leftoverPos r + toCopy);
             r1 = r\<lparr>r_leftoverPos := r_leftoverPos r + toCopy\<rparr>;
             r2 = (if r_leftoverPos r1 \<ge> length (r_leftover r1)
                   then r1\<lparr>r_leftover := [], r_leftoverPos := 0\<rparr> else r1)
         in if toCopy \<ge> plen then (r2, out, None) else readLoop r2 plen out)
      else readLoop r plen [])"

text \<open>\<open>Read(p)\<close> with \<open>len(p) = plen\<close>: the reader, \<open>p[:n]\<close> and the error.\<close>

definition Read :: "reader \<Rightarrow> nat \<Rightarrow> reader \<times> byte list \<times> error option" where
  "Read r plen =
     (if r_eof r then (r, [], Some EOF)
      else if \<not> r_headerRead r then
        (case ReadFrameHeader (r_src r) of
           (Inl err, src1) \<Rightarrow> (r\<lparr>r_src := src1\<rparr>, [], Some err)
         | (Inr header, src1) \<Rightarrow>
             (case checkHeader header of
                Some err \<Rightarrow> (r\<lparr>r_src := src1\<rparr>, [], Some err)
              | None \<Rightarrow> readBody (r\<lparr>r_src := src1, r_headerRead := True\<rparr>) plen))
      else readBody r plen)"

section \<open>Correctness of the block codec\<close>

lemma store_ok: "i < length dst \<Longrightarrow> store dst i v = Inr (dst[i := v])"
  by (simp add: store_def)

lemma length_copyInto [simp]: "length (copyInto dst pos xs) = length dst"
  by (auto simp: copyInto_def)

lemma copyInto_fits:
  "pos + length xs \<le> length dst \<Longrightarrow> copyInto dst pos xs = take pos dst @ xs @ drop (pos + length xs) dst"
  by (simp add: copyInto_def)

lemma copyInto_Nil [simp]: "copyInto dst pos [] = dst"
  by (simp add: copyInto_def)

lemma update_copyInto: "i < length dst \<Longrightarrow> dst[i := v] = copyInto dst i [v]"
  by (simp add: copyInto_def upd_conv_take_nth_drop)

lemma copyInto_append:
  assumes "pos + length xs + length ys \<le> length dst"
  shows "copyInto (copyInto dst pos xs) (pos + length xs) ys = copyInto dst pos (xs @ ys)"
proof -
  have "copyInto dst pos xs = (take pos dst @ xs) @ drop (pos + length xs) dst"
    using assms by (simp add: copyInto_fits)
  moreover have "length (take pos dst @ xs) = pos + length xs"
    using assms by simp
  ultimately have "copyInto (copyInto dst pos xs) (pos + length xs) ys
      = (take pos dst @ xs) @ ys @ drop (length ys) (drop (pos + length xs) dst)"
    using assms by (simp add: copyInto_def)
  also have "\<dots> = copyInto dst pos (xs @ ys)"
    using assms by (simp add: copyInto_fits ac_simps)
  finally show ?thesis .
qed

lemma copyAt_ok: "pos \<le> length dst \<Longrightarrow> copyAt dst pos xs = Inr (copyInto dst pos xs)"
  by (simp add: copyAt_def copyInto_def)

lemma length_slice: "hi \<le> length src \<Longrightarrow> length (slice src lo hi) = hi - lo"
  by (simp add: slice_def)

function encLength :: "nat \<Rightarrow> byte list" where
  "encLength remaining =
     (if remaining \<ge> 255 then 255 # encLength (remaining - 255) else [word_of_nat remaining])"
  by pat_completeness auto
termination
  by (relation "measure id") auto

declare encLength.simps [simp del]

lemma length_encLength: "length (encLength r) = r div 255 + 1"
proof (induction r rule: encLength.induct)
  case (1 r)
  show ?case
  proof (cases "r \<ge> 255")
    case True
    then have "r div 255 = (r - 255) div 255 + 1"
      by (simp add: le_div_geq)
    with "1.IH" True show ?thesis
      by (simp add: encLength.simps [of r])
  next
    case False
    then show ?thesis by (simp add: encLength.simps [of r])
  qed
qed

lemma putLength_ok:
  "dstPos + length (encLength r) \<le> length dst \<Longrightarrow>
   putLength dst dstPos r = Inr (copyInto dst dstPos (encLength r), dstPos + length (encLength r))"
proof (induction r arbitrary: dst dstPos rule: encLength.induct)
  case (1 r)
  show ?case
  proof (cases "r \<ge> 255")
    case True
    from "1.prems" True have len: "dstPos + 1 + length (encLength (r - 255)) \<le> length dst"
      by (simp add: encLength.simps [of r])
    then have lt: "dstPos < length dst" by simp
    have "putLength dst dstPos r = putLength (dst[dstPos := 255]) (dstPos + 1) (r - 255)"
      using True lt by (simp add: putLength.simps [of dst dstPos r] store_ok)
    also have "\<dots> = Inr (copyInto (dst[dstPos := 255]) (dstPos + 1) (encLength (r - 255)),
        dstPos + 1 + length (encLength (r - 255)))"
      using "1.IH" [OF True, of "dstPos + 1" "dst[dstPos := 255]"] len by simp
    also have "copyInto (dst[dstPos := 255]) (dstPos + 1) (encLength (r - 255))
        = copyInto dst dstPos ([255] @ encLength (r - 255))"
      using copyInto_append [of dstPos "[255]" "encLength (r - 255)" dst] len lt
      by (simp add: update_copyInto)
    finally show ?thesis
      using True by (simp add: encLength.simps [of r])
  next
    case False
    with "1.prems" have lt: "dstPos < length dst"
      by (simp add: encLength.simps [of r])
    with False show ?thesis
      by (simp add: putLength.simps [of dst dstPos r] encLength.simps [of r] store_ok update_copyInto)
  qed
qed

definition encLiterals :: "byte \<Rightarrow> byte list \<Rightarrow> byte list" where
  "encLiterals token lits =
     token # (if length lits \<ge> 15 then encLength (length lits - 15) else []) @ lits"

lemma putLiterals_ok:
  assumes "anchor \<le> srcPos" "srcPos \<le> length src"
    and "dstPos + length (encLiterals token (slice src anchor srcPos)) \<le> length dst"
  shows "putLiterals src dst dstPos token anchor srcPos =
     Inr (copyInto dst dstPos (encLiterals token (slice src anchor srcPos)),
          dstPos + length (encLiterals token (slice src anchor srcPos)))"
proof -
  define lits where "lits = slice src anchor srcPos"
  define L where "L = srcPos - anchor"
  define ext where "ext = (if L \<ge> 15 then encLength (L - 15) else [])"
  have L: "length lits = L" using assms by (simp add: length_slice lits_def L_def)
  have e: "encLiterals token lits = ([token] @ ext) @ lits"
    using L by (simp add: encLiterals_def ext_def)
  from assms(3) have room: "dstPos + 1 + length ext + L \<le> length dst"
    unfolding lits_def [symmetric] e using L by simp
  then have lt: "dstPos < length dst" by simp
  have s1: "store dst dstPos token = Inr (copyInto dst dstPos [token])"
    using lt by (simp add: store_ok update_copyInto)
  have s2: "(if L \<ge> 15 then putLength (copyInto dst dstPos [token]) (dstPos + 1) (L - 15)
             else Inr (copyInto dst dstPos [token], dstPos + 1))
      = Inr (copyInto dst dstPos ([token] @ ext), dstPos + 1 + length ext)"
  proof (cases "L \<ge> 15")
    case True
    then have ext: "ext = encLength (L - 15)" by (simp add: ext_def)
    have "putLength (copyInto dst dstPos [token]) (dstPos + 1) (L - 15)
       = Inr (copyInto (copyInto dst dstPos [token]) (dstPos + 1) ext, dstPos + 1 + length ext)"
      unfolding ext [symmetric] using room putLength_ok [of "dstPos + 1" "L - 15" "copyInto dst dstPos [token]"]
      by (simp add: ext)
    also have "copyInto (copyInto dst dstPos [token]) (dstPos + 1) ext
       = copyInto dst dstPos ([token] @ ext)"
      using copyInto_append [of dstPos "[token]" ext dst] room by simp
    finally show ?thesis using True by simp
  next
    case False
    then show ?thesis by (simp add: ext_def)
  qed
  have s3: "copyInto (copyInto dst dstPos ([token] @ ext)) (dstPos + 1 + length ext) lits
      = copyInto dst dstPos (([token] @ ext) @ lits)"
    using copyInto_append [of dstPos "[token] @ ext" lits dst] room L by simp
  have unf: "putLiterals src dst dstPos token anchor srcPos =
      bindE (store dst dstPos token) (\<lambda>dst1.
      bindE (if L \<ge> 15 then putLength dst1 (dstPos + 1) (L - 15)
             else Inr (dst1, dstPos + 1)) (\<lambda>(dst2, dstPos2).
      if L > 0 then
        bindE (copyAt dst2 dstPos2 lits) (\<lambda>dst3. Inr (dst3, dstPos2 + L))
      else Inr (dst2, dstPos2)))"
    unfolding putLiterals_def Let_def L_def lits_def ..
  show ?thesis
  proof (cases "L > 0")
    case True
    have "putLiterals src dst dstPos token anchor srcPos
        = bindE (copyAt (copyInto dst dstPos ([token] @ ext)) (dstPos + 1 + length ext) lits)
            (\<lambda>dst3. Inr (dst3, dstPos + 1 + length ext + L))"
      unfolding unf s1 bindE_simps s2 using True by simp
    also have "\<dots> = Inr (copyInto dst dstPos (([token] @ ext) @ lits), dstPos + 1 + length ext + L)"
      using room s3 by (simp add: copyAt_ok)
    finally show ?thesis unfolding lits_def [symmetric] e using L by simp
  next
    case False
    then have "lits = []" using L by simp
    moreover have "putLiterals src dst dstPos token anchor srcPos
        = Inr (copyInto dst dstPos ([token] @ ext), dstPos + 1 + length ext)"
      unfolding unf s1 bindE_simps s2 using False by simp
    ultimately show ?thesis unfolding lits_def [symmetric] e using False by simp
  qed
qed

definition encSequence :: "byte list \<Rightarrow> nat \<Rightarrow> nat \<Rightarrow> byte list" where
  "encSequence lits offset matchLen =
     encLiterals (matchToken (literalToken (length lits)) (matchLen - minMatchLength)) lits
       @ [word_of_nat offset, word_of_nat (offset div 256)]
       @ (if matchLen - minMatchLength \<ge> 15 then encLength (matchLen - minMatchLength - 15) else [])"

lemma emitSequence_ok:
  assumes "anchor \<le> srcPos" "srcPos \<le> length src" "unat ref \<le> srcPos"
    and room: "dstPos + length (encSequence (slice src anchor srcPos) (srcPos - unat ref) matchLen) \<le> length dst"
  shows "emitSequence src dst dstPos anchor srcPos ref matchLen =
     Inr (copyInto dst dstPos (encSequence (slice src anchor srcPos) (srcPos - unat ref) matchLen),
          dstPos + length (encSequence (slice src anchor srcPos) (srcPos - unat ref) matchLen))"
proof -
  define lits where "lits = slice src anchor srcPos"
  define mc where "mc = matchLen - minMatchLength"
  define token where "token = matchToken (literalToken (srcPos - anchor)) mc"
  define el where "el = encLiterals token lits"
  define off where "off = srcPos - unat ref"
  define mext where "mext = (if mc \<ge> 15 then encLength (mc - 15) else [])"
  have L: "length lits = srcPos - anchor" using assms by (simp add: length_slice lits_def)
  have enc: "encSequence lits off matchLen = el @ [word_of_nat off, word_of_nat (off div 256)] @ mext"
    by (simp add: encSequence_def el_def token_def mc_def mext_def L)
  have ell: "length el \<ge> 1 + (srcPos - anchor)"
    by (simp add: el_def encLiterals_def L)
  from room have room': "dstPos + length el + 2 + length mext \<le> length dst"
    unfolding lits_def [symmetric] off_def [symmetric] enc by simp
  have chk: "\<not> dstPos + 1 + (srcPos - anchor) + 2 > length dst"
    using room' ell by simp
  have pl: "putLiterals src dst dstPos token anchor srcPos = Inr (copyInto dst dstPos el, dstPos + length el)"
    unfolding el_def lits_def using assms(1,2) room' [unfolded el_def lits_def]
    by (intro putLiterals_ok) simp_all
  have offi: "int srcPos - int (unat ref) = int off"
    using assms(3) by (simp add: off_def)
  have w1: "(word_of_int (int off) :: byte) = word_of_nat off" by simp
  have "int off div 256 = int (off div 256)" by (simp add: zdiv_int)
  then have w2: "(word_of_int (int off div 256) :: byte) = word_of_nat (off div 256)"
    by (simp only: of_int_of_nat_eq)
  define d3 where "d3 = copyInto dst dstPos el"
  define p3 where "p3 = dstPos + length el"
  have l3: "length d3 = length dst" by (simp add: d3_def)
  have st1: "store d3 p3 (word_of_nat off) = Inr (copyInto dst dstPos (el @ [word_of_nat off]))"
    using room' copyInto_append [of dstPos el "[word_of_nat off]" dst]
    by (simp add: store_ok l3 p3_def update_copyInto d3_def)
  have st2: "store (copyInto dst dstPos (el @ [word_of_nat off])) (p3 + 1) (word_of_nat (off div 256))
      = Inr (copyInto dst dstPos (el @ [word_of_nat off, word_of_nat (off div 256)]))"
    using room' copyInto_append [of dstPos "el @ [word_of_nat off]" "[word_of_nat (off div 256)]" dst]
    by (simp add: store_ok p3_def update_copyInto)
  have st3: "(if mc \<ge> 15 then putLength (copyInto dst dstPos (el @ [word_of_nat off, word_of_nat (off div 256)])) (p3 + 2) (mc - 15)
             else Inr (copyInto dst dstPos (el @ [word_of_nat off, word_of_nat (off div 256)]), p3 + 2))
      = Inr (copyInto dst dstPos (el @ [word_of_nat off, word_of_nat (off div 256)] @ mext),
             p3 + 2 + length mext)"
  proof (cases "mc \<ge> 15")
    case True
    then have m: "mext = encLength (mc - 15)" by (simp add: mext_def)
    show ?thesis
      using True room' putLength_ok [of "p3 + 2" "mc - 15" "copyInto dst dstPos (el @ [word_of_nat off, word_of_nat (off div 256)])"]
        copyInto_append [of dstPos "el @ [word_of_nat off, word_of_nat (off div 256)]" mext dst]
      by (simp add: m p3_def)
  next
    case False
    then show ?thesis by (simp add: mext_def)
  qed
  have unf: "emitSequence src dst dstPos anchor srcPos ref matchLen =
      (if dstPos + 1 + (srcPos - anchor) + 2 > length dst then Inl ErrBlockTooLarge
         else
           bindE (putLiterals src dst dstPos token anchor srcPos) (\<lambda>(dst3, dstPos3).
           bindE (store dst3 dstPos3 (word_of_int (int off))) (\<lambda>dst4.
           bindE (store dst4 (dstPos3 + 1) (word_of_int (int off div 256))) (\<lambda>dst5.
           if mc \<ge> 15 then putLength dst5 (dstPos3 + 2) (mc - 15)
           else Inr (dst5, dstPos3 + 2)))))"
    unfolding emitSequence_def Let_def token_def mc_def offi ..
  have "emitSequence src dst dstPos anchor srcPos ref matchLen =
      Inr (copyInto dst dstPos (el @ [word_of_nat off, word_of_nat (off div 256)] @ mext),
             p3 + 2 + length mext)"
    unfolding unf pl w1 w2 using chk st1 st2 st3
    by (simp add: d3_def [symmetric] p3_def [symmetric])
  then show ?thesis
    unfolding lits_def [symmetric] off_def [symmetric] enc by (simp add: p3_def)
qed

lemma nat_lt16_cases:
  "(a::nat) < 16 \<Longrightarrow> a = 0 \<or> a = 1 \<or> a = 2 \<or> a = 3 \<or> a = 4 \<or> a = 5 \<or> a = 6 \<or> a = 7
     \<or> a = 8 \<or> a = 9 \<or> a = 10 \<or> a = 11 \<or> a = 12 \<or> a = 13 \<or> a = 14 \<or> a = 15"
  by arith

lemma tok_hi:
  assumes "a < 16" "b < 16"
  shows "unat (drop_bit 4 (push_bit 4 (word_of_nat a) OR word_of_nat b :: byte)) = a"
  using nat_lt16_cases [OF assms(1)] nat_lt16_cases [OF assms(2)]
  by (elim disjE) simp_all

lemma tok_lo:
  assumes "a < 16" "b < 16"
  shows "unat ((push_bit 4 (word_of_nat a) OR word_of_nat b :: byte) AND 0x0F) = b"
  using nat_lt16_cases [OF assms(1)] nat_lt16_cases [OF assms(2)]
  by (elim disjE) simp_all

lemma u16w: "Uint16 ((word_of_nat off :: byte) # word_of_nat (off div 256) # rest) = word_of_nat off"
proof -
  have d: "off div 256 = drop_bit 8 off" by (simp add: drop_bit_eq_div)
  show ?thesis
    unfolding Uint16_def d
    by (rule bit_word_eqI) (auto simp: bit_simps)
qed

lemma u16: "off < 65536 \<Longrightarrow> unat (Uint16 ((word_of_nat off :: byte) # word_of_nat (off div 256) # rest)) = off"
  by (simp add: u16w unat_of_nat)

lemma literalToken_eq: "literalToken L = push_bit 4 (word_of_nat (min L 15))"
  by (simp add: literalToken_def min_def)

lemma matchToken_eq: "matchToken t mc = t OR word_of_nat (min mc 15)"
  by (simp add: matchToken_def min_def)

lemma token_litLen: "unat (drop_bit 4 (matchToken (literalToken L) mc)) = min L 15"
  unfolding literalToken_eq matchToken_eq by (rule tok_hi) simp_all

lemma token_matchLen: "unat (matchToken (literalToken L) mc AND 0x0F) = min mc 15"
  unfolding literalToken_eq matchToken_eq by (rule tok_lo) simp_all

lemma literalToken_litLen: "unat (drop_bit 4 (literalToken L)) = min L 15"
  using tok_hi [of "min L 15" 0] by (simp add: literalToken_eq)

lemma getLength_enc:
  "getLength (pre @ encLength r @ post) (length pre) acc
     = Some (acc + r, length pre + length (encLength r))"
proof (induction r arbitrary: pre acc rule: encLength.induct)
  case (1 r)
  show ?case
  proof (cases "r \<ge> 255")
    case True
    let ?src = "pre @ encLength r @ post"
    have e: "encLength r = 255 # encLength (r - 255)"
      using True by (simp add: encLength.simps [of r])
    have src: "?src = (pre @ [255]) @ encLength (r - 255) @ post"
      by (simp add: e)
    have nth: "?src ! length pre = 255" by (simp add: e)
    have "getLength ?src (length pre) acc = getLength ?src (length pre + 1) (acc + 255)"
      using nth by (subst getLength.simps) (simp add: e)
    also have "\<dots> = Some (acc + 255 + (r - 255), length (pre @ [255]) + length (encLength (r - 255)))"
      unfolding src using "1.IH" [OF True, of "pre @ [255]" "acc + 255"] by simp
    finally show ?thesis using True by (simp add: e)
  next
    case False
    have e: "encLength r = [word_of_nat r]"
      using False by (simp add: encLength.simps [of r])
    have u: "unat (word_of_nat r :: byte) = r"
      using False by (simp add: unat_of_nat)
    have ne: "(word_of_nat r :: byte) \<noteq> 255"
    proof
      assume "(word_of_nat r :: byte) = 255"
      then have "unat (word_of_nat r :: byte) = unat (255 :: byte)" by simp
      with u False show False by simp
    qed
    show ?thesis
      using ne u by (subst getLength.simps) (simp add: e)
  qed
qed

lemma getLength_litLen:
  assumes "unat (drop_bit 4 token) = min L 15"
  shows "(if unat (drop_bit 4 token) = 15
          then getLength (pre @ token # (if L \<ge> 15 then encLength (L - 15) else []) @ post)
                 (length pre + 1) (unat (drop_bit 4 token))
          else Some (unat (drop_bit 4 token), length pre + 1))
         = Some (L, length pre + 1 + length (if L \<ge> 15 then encLength (L - 15) else []))"
proof (cases "L \<ge> 15")
  case True
  have "getLength ((pre @ [token]) @ encLength (L - 15) @ post) (length (pre @ [token])) 15
      = Some (15 + (L - 15), length (pre @ [token]) + length (encLength (L - 15)))"
    by (rule getLength_enc)
  with True assms show ?thesis by simp
next
  case False
  with assms show ?thesis by simp
qed

lemma slice_append_mid:
  "slice (pre @ xs @ post) (length pre) (length pre + length xs) = xs"
  by (simp add: slice_def)

lemma decodeLiterals_enc:
  assumes src: "src = pre @ encLiterals token lits @ post"
    and tok: "unat (drop_bit 4 token) = min (length lits) 15"
    and pos: "d_srcPos st = length pre"
    and room: "d_dstPos st + length lits \<le> length (d_dst st)" "d_dstPos st < length (d_dst st)"
  shows "decodeLiterals src st =
     (let st3 = \<lparr>d_dst = copyInto (d_dst st) (d_dstPos st) lits,
                  d_srcPos = length pre + length (encLiterals token lits),
                  d_dstPos = d_dstPos st + length lits\<rparr>
      in if post = [] then LBreak st3 else LMatch token st3)"
proof -
  define L where "L = length lits"
  define ext where "ext = (if L \<ge> 15 then encLength (L - 15) else [])"
  have src': "src = pre @ token # ext @ lits @ post"
    by (simp add: src encLiterals_def ext_def L_def)
  have tk: "src ! length pre = token" by (simp add: src')
  have gl: "(if unat (drop_bit 4 token) = 15
          then getLength src (length pre + 1) (unat (drop_bit 4 token))
          else Some (unat (drop_bit 4 token), length pre + 1))
         = Some (L, length pre + 1 + length ext)"
    unfolding src' ext_def
    using getLength_litLen [of token L pre "lits @ post"] tok by (simp add: L_def)
  have sl: "slice src (length pre + 1 + length ext) (length pre + 1 + length ext + L) = lits"
    using slice_append_mid [of "pre @ token # ext" lits post]
    by (simp add: src' L_def)
  have len: "length src = length pre + 1 + length ext + L + length post"
    by (simp add: src' L_def)
  have el: "length (encLiterals token lits) = 1 + length ext + L"
    by (simp add: encLiterals_def ext_def L_def)
  show ?thesis
  proof (cases "L > 0")
    case True
    then show ?thesis
      unfolding decodeLiterals_def Let_def pos tk gl
      using room len sl el by (auto simp: L_def [symmetric])
  next
    case False
    then have "lits = []" by (simp add: L_def)
    with False show ?thesis
      unfolding decodeLiterals_def Let_def pos tk gl
      using room len el by (auto simp: L_def [symmetric])
  qed
qed

lemma copyLoop_spec:
  assumes "ref + i < dstPos" "i \<le> M" "dstPos + (M - i) \<le> length dst"
  shows "\<exists>D'. copyLoop dst ref dstPos M i = (D', dstPos + (M - i)) \<and> length D' = length dst
           \<and> take dstPos D' = take dstPos dst
           \<and> (\<forall>j. i \<le> j \<and> j < M \<longrightarrow> D' ! (dstPos + (j - i)) = D' ! (ref + j))"
  using assms
proof (induction dst ref dstPos M i rule: copyLoop.induct)
  case (1 dst ref dstPos M i)
  show ?case
  proof (cases "i < M")
    case False
    then have "copyLoop dst ref dstPos M i = (dst, dstPos)"
      by (subst copyLoop.simps) simp
    with False show ?thesis using "1.prems" by auto
  next
    case True
    define dst1 where "dst1 = dst[dstPos := dst ! (ref + i)]"
    have lt: "dstPos < length dst" using True "1.prems" by simp
    have p1: "ref + (i + 1) < dstPos + 1" using "1.prems" by simp
    have p2: "i + 1 \<le> M" using True by simp
    have p3: "dstPos + 1 + (M - (i + 1)) \<le> length (dst[dstPos := dst ! (ref + i)])"
      using "1.prems" True by simp
    from "1.IH" [OF True p1 p2 p3]
    obtain D' where D': "copyLoop dst1 ref (dstPos + 1) M (i + 1) = (D', dstPos + 1 + (M - (i + 1)))"
      "length D' = length dst1" "take (dstPos + 1) D' = take (dstPos + 1) dst1"
      "\<forall>j. i + 1 \<le> j \<and> j < M \<longrightarrow> D' ! (dstPos + 1 + (j - (i + 1))) = D' ! (ref + j)"
      unfolding dst1_def by auto
    have nthD: "\<And>k. k < dstPos + 1 \<Longrightarrow> D' ! k = dst1 ! k"
      using D'(3) by (metis nth_take)
    have a: "D' ! dstPos = dst ! (ref + i)"
      using nthD [of dstPos] lt by (simp add: dst1_def)
    have b: "D' ! (ref + i) = dst ! (ref + i)"
      using nthD [of "ref + i"] "1.prems"(1) by (simp add: dst1_def)
    have c: "take dstPos D' = take dstPos dst"
    proof -
      have "take dstPos D' = take dstPos (take (dstPos + 1) D')" by (simp add: min_def)
      also have "\<dots> = take dstPos (take (dstPos + 1) dst1)" by (simp only: D'(3))
      also have "\<dots> = take dstPos dst" by (simp add: dst1_def min_def)
      finally show ?thesis .
    qed
    have d: "\<forall>j. i \<le> j \<and> j < M \<longrightarrow> D' ! (dstPos + (j - i)) = D' ! (ref + j)"
    proof (intro allI impI)
      fix j assume j: "i \<le> j \<and> j < M"
      show "D' ! (dstPos + (j - i)) = D' ! (ref + j)"
      proof (cases "j = i")
        case True
        then show ?thesis using a b by simp
      next
        case False
        with j have "i + 1 \<le> j \<and> j < M" by simp
        with D'(4) have A: "D' ! (dstPos + 1 + (j - (i + 1))) = D' ! (ref + j)" by blast
        have B: "dstPos + 1 + (j - (i + 1)) = dstPos + (j - i)" using j False by arith
        show ?thesis using A unfolding B .
      qed
    qed
    have "copyLoop dst ref dstPos M i = (D', dstPos + (M - i))"
      using True D'(1) by (subst copyLoop.simps) (simp add: dst1_def)
    with c d D'(2) show ?thesis by (auto simp: dst1_def)
  qed
qed

lemma bulk_copy_spec:
  assumes "off \<le> q" "M \<le> off" "q + M \<le> length D"
  defines "D' \<equiv> copyInto D q (slice D (q - off) (q - off + M))"
  shows "length D' = length D \<and> take q D' = take q D
         \<and> (\<forall>k < M. D' ! (q + k) = D' ! (q - off + k))"
proof -
  define sl where "sl = slice D (q - off) (q - off + M)"
  have lsl: "length sl = M" using assms by (simp add: sl_def length_slice)
  have D': "D' = take q D @ sl @ drop (q + M) D"
    unfolding D'_def sl_def [symmetric] using assms(3) lsl by (simp add: copyInto_fits)
  have lq: "length (take q D) = q" using assms by simp
  have "\<forall>k < M. D' ! (q + k) = D' ! (q - off + k)"
  proof (intro allI impI)
    fix k assume k: "k < M"
    have "D' ! (q + k) = sl ! k"
      unfolding D' using lq lsl k by (simp add: nth_append)
    also have "\<dots> = D ! (q - off + k)"
      using k assms by (simp add: sl_def slice_def)
    also have "\<dots> = D' ! (q - off + k)"
    proof -
      have "q - off + k < q" using k assms(1,2) by arith
      then show ?thesis unfolding D' using lq by (simp add: nth_append)
    qed
    finally show "D' ! (q + k) = D' ! (q - off + k)" .
  qed
  moreover have "take q D' = take q D" unfolding D' using lq by simp
  moreover have "length D' = length D" by (simp add: D'_def)
  ultimately show ?thesis by blast
qed

lemma decodeMatch_enc:
  assumes src: "src = pre @ [word_of_nat off, word_of_nat (off div 256)] @ mext @ post"
    and mext: "mext = (if mc \<ge> 15 then encLength (mc - 15) else [])"
    and tok: "unat (token AND 0x0F) = min mc 15"
    and pos: "d_srcPos st3 = length pre"
    and off: "0 < off" "off \<le> d_dstPos st3" "off < 65536"
    and room: "d_dstPos st3 + (mc + minMatchLength) \<le> length (d_dst st3)"
  shows "\<exists>D'. decodeMatch src token st3 =
             DNext \<lparr>d_dst = D', d_srcPos = length pre + 2 + length mext,
                    d_dstPos = d_dstPos st3 + (mc + minMatchLength)\<rparr>
        \<and> length D' = length (d_dst st3)
        \<and> take (d_dstPos st3) D' = take (d_dstPos st3) (d_dst st3)
        \<and> (\<forall>k < mc + minMatchLength. D' ! (d_dstPos st3 + k) = D' ! (d_dstPos st3 - off + k))"
proof -
  define D where "D = d_dst st3"
  define q where "q = d_dstPos st3"
  define M where "M = mc + minMatchLength"
  have len: "length pre + 2 \<le> length src" by (simp add: src)
  have u: "unat (Uint16 (drop (length pre) src)) = off"
    using off(3) by (simp add: src u16)
  have gl: "(if unat (token AND 0x0F) = 15
          then getLength src (length pre + 2) (unat (token AND 0x0F))
          else Some (unat (token AND 0x0F), length pre + 2))
         = Some (mc, length pre + 2 + length mext)"
  proof (cases "mc \<ge> 15")
    case True
    have "getLength ((pre @ [word_of_nat off, word_of_nat (off div 256)]) @ encLength (mc - 15) @ post)
            (length (pre @ [word_of_nat off, word_of_nat (off div 256)])) 15
        = Some (15 + (mc - 15), length (pre @ [word_of_nat off, word_of_nat (off div 256)])
                 + length (encLength (mc - 15)))"
      by (rule getLength_enc)
    with True tok show ?thesis by (simp add: src mext)
  next
    case False
    with tok show ?thesis by (simp add: mext)
  qed
  have roomM: "q + M \<le> length D" using room by (simp add: q_def M_def D_def)
  have offq: "off \<le> q" using off by (simp add: q_def)
  show ?thesis
  proof (cases "off \<ge> M")
    case True
    have dm: "decodeMatch src token st3 =
        DNext \<lparr>d_dst = copyInto D q (slice D (q - off) (q - off + M)),
               d_srcPos = length pre + 2 + length mext, d_dstPos = q + M\<rparr>"
      unfolding decodeMatch_def Let_def pos u gl
      using len off True roomM
      by (simp add: D_def q_def M_def)
    from bulk_copy_spec [OF offq True roomM] dm show ?thesis
      unfolding D_def q_def M_def by blast
  next
    case False
    have r: "(q - off) + 0 < q" using off by (simp add: q_def)
    from copyLoop_spec [OF r, of M D] roomM
    obtain D' where D': "copyLoop D (q - off) q M 0 = (D', q + M)" "length D' = length D"
      "take q D' = take q D" "\<forall>j. j < M \<longrightarrow> D' ! (q + j) = D' ! (q - off + j)"
      by auto
    have dm: "decodeMatch src token st3 =
        DNext \<lparr>d_dst = D', d_srcPos = length pre + 2 + length mext, d_dstPos = q + M\<rparr>"
      unfolding decodeMatch_def Let_def pos u gl
      using len off False roomM D'(1)
      by (simp add: D_def q_def M_def)
    with D' show ?thesis
      unfolding D_def q_def M_def by blast
  qed
qed

lemma run_eq:
  assumes "take q A = take q B" "ref < q" "q + M \<le> length A" "q + M \<le> length B"
    and "\<forall>k<M. A ! (q + k) = A ! (ref + k)" "\<forall>k<M. B ! (q + k) = B ! (ref + k)"
  shows "take (q + M) A = take (q + M) B"
proof -
  have "n \<le> M \<Longrightarrow> take (q + n) A = take (q + n) B" for n
  proof (induction n)
    case 0
    then show ?case using assms(1) by simp
  next
    case (Suc n)
    then have IH: "take (q + n) A = take (q + n) B" and n: "n < M" by simp_all
    have "A ! (q + n) = A ! (ref + n)" using assms(5) n by blast
    also have "\<dots> = take (q + n) A ! (ref + n)" using assms(2) by simp
    also have "\<dots> = take (q + n) B ! (ref + n)" by (simp only: IH)
    also have "\<dots> = B ! (ref + n)" using assms(2) by simp
    also have "\<dots> = B ! (q + n)" using assms(6) n by simp
    finally have e: "A ! (q + n) = B ! (q + n)" .
    have "take (q + Suc n) A = take (q + n) A @ [A ! (q + n)]"
      using n assms(3) by (simp add: take_Suc_conv_app_nth)
    moreover have "take (q + Suc n) B = take (q + n) B @ [B ! (q + n)]"
      using n assms(4) by (simp add: take_Suc_conv_app_nth)
    ultimately show ?case using IH e by simp
  qed
  then show ?thesis by blast
qed

lemma length_encLiterals:
  "length (encLiterals token lits) =
     1 + (if length lits \<ge> 15 then (length lits - 15) div 255 + 1 else 0) + length lits"
  by (simp add: encLiterals_def length_encLength)

lemma length_encSequence:
  "length (encSequence lits off M) =
     length (encLiterals (matchToken (literalToken (length lits)) (M - minMatchLength)) lits) + 2
     + (if M - minMatchLength \<ge> 15 then (M - minMatchLength - 15) div 255 + 1 else 0)"
  by (simp add: encSequence_def length_encLength)

lemma take_copyInto:
  "q + length xs \<le> length D \<Longrightarrow> take (q + length xs) (copyInto D q xs) = take q D @ xs"
  by (simp add: copyInto_fits)

lemma decodeStep_seq:
  assumes src: "src = pre @ encSequence lits off M @ post"
    and pos: "d_srcPos st = length pre"
    and M: "minMatchLength \<le> M"
    and off: "0 < off" "off \<le> d_dstPos st + length lits" "off < 65536"
    and room: "d_dstPos st + length lits + M \<le> length (d_dst st)"
  shows "\<exists>D'. decodeStep src st =
             DNext \<lparr>d_dst = D', d_srcPos = length pre + length (encSequence lits off M),
                    d_dstPos = d_dstPos st + length lits + M\<rparr>
        \<and> length D' = length (d_dst st)
        \<and> take (d_dstPos st + length lits) D' = take (d_dstPos st) (d_dst st) @ lits
        \<and> (\<forall>k < M. D' ! (d_dstPos st + length lits + k) = D' ! (d_dstPos st + length lits - off + k))"
proof -
  define mc where "mc = M - minMatchLength"
  define token where "token = matchToken (literalToken (length lits)) mc"
  define el where "el = encLiterals token lits"
  define mext where "mext = (if mc \<ge> 15 then encLength (mc - 15) else [])"
  define tl where "tl = [word_of_nat off, word_of_nat (off div 256)] @ mext @ post"
  define st3 where "st3 = \<lparr>d_dst = copyInto (d_dst st) (d_dstPos st) lits,
                  d_srcPos = length pre + length el,
                  d_dstPos = d_dstPos st + length lits\<rparr>"
  have Mmc: "M = mc + minMatchLength" using M by (simp add: mc_def)
  have src1: "src = pre @ el @ tl"
    by (simp add: src encSequence_def el_def token_def mc_def mext_def tl_def)
  have src2: "src = (pre @ el) @ [word_of_nat off, word_of_nat (off div 256)] @ mext @ post"
    by (simp add: src1 tl_def)
  have enc: "length (encSequence lits off M) = length el + 2 + length mext"
    by (simp add: encSequence_def el_def token_def mc_def mext_def)
  have lt: "d_dstPos st < length (d_dst st)"
    using room M by (simp add: minMatchLength_def)
  have r1: "d_dstPos st + length lits \<le> length (d_dst st)" using room by simp
  have tl: "tl \<noteq> []" by (simp add: tl_def)
  have dl: "decodeLiterals src st = LMatch token st3"
    using decodeLiterals_enc [OF src1 [unfolded el_def] _ pos r1 lt] tl
    by (simp add: token_def token_litLen st3_def el_def Let_def)
  have p3: "d_srcPos st3 = length (pre @ el)" by (simp add: st3_def)
  have o2: "off \<le> d_dstPos st3" using off by (simp add: st3_def)
  have r3: "d_dstPos st3 + (mc + minMatchLength) \<le> length (d_dst st3)"
    using room Mmc by (simp add: st3_def)
  have tm: "unat (token AND 0x0F) = min mc 15"
    by (simp add: token_def token_matchLen)
  from decodeMatch_enc [OF src2 mext_def tm p3 off(1) o2 off(3) r3]
  obtain D' where D': "decodeMatch src token st3 =
             DNext \<lparr>d_dst = D', d_srcPos = length (pre @ el) + 2 + length mext,
                    d_dstPos = d_dstPos st3 + (mc + minMatchLength)\<rparr>"
      "length D' = length (d_dst st3)"
      "take (d_dstPos st3) D' = take (d_dstPos st3) (d_dst st3)"
      "\<forall>k < mc + minMatchLength. D' ! (d_dstPos st3 + k) = D' ! (d_dstPos st3 - off + k)"
    by blast
  have t: "take (d_dstPos st + length lits) D' = take (d_dstPos st) (d_dst st) @ lits"
    using D'(3) r1 by (simp add: st3_def take_copyInto)
  have e1: "length pre + length (encSequence lits off M) = length (pre @ el) + 2 + length mext"
    by (simp add: enc)
  have e2: "d_dstPos st + length lits + M = d_dstPos st3 + (mc + minMatchLength)"
    using Mmc by (simp add: st3_def)
  have "decodeStep src st = DNext \<lparr>d_dst = D', d_srcPos = length pre + length (encSequence lits off M),
                    d_dstPos = d_dstPos st + length lits + M\<rparr>"
    unfolding e1 e2 using dl D'(1) by (simp add: decodeStep_def)
  moreover have "length D' = length (d_dst st)" using D'(2) by (simp add: st3_def)
  moreover have "\<forall>k < M. D' ! (d_dstPos st + length lits + k) = D' ! (d_dstPos st + length lits - off + k)"
    using D'(4) Mmc by (simp add: st3_def)
  ultimately show ?thesis using t by blast
qed

lemma decodeStep_last:
  assumes src: "src = pre @ encLiterals (literalToken (length lits)) lits"
    and pos: "d_srcPos st = length pre"
    and room: "d_dstPos st + length lits \<le> length (d_dst st)" "d_dstPos st < length (d_dst st)"
  shows "decodeStep src st =
           DBreak \<lparr>d_dst = copyInto (d_dst st) (d_dstPos st) lits, d_srcPos = length src,
                   d_dstPos = d_dstPos st + length lits\<rparr>"
proof -
  have src': "src = pre @ encLiterals (literalToken (length lits)) lits @ []" by (simp add: src)
  show ?thesis
    using decodeLiterals_enc [OF src' _ pos room]
    by (simp add: decodeStep_def literalToken_litLen Let_def src)
qed

lemma matchLoop_spec:
  assumes "m \<le> maxLen" "srcPos + maxLen \<le> length src" "ref \<le> srcPos"
  shows "\<exists>M. matchLoop src srcPos ref maxLen m = Inr M \<and> m \<le> M \<and> M \<le> maxLen
           \<and> (\<forall>k. m \<le> k \<and> k < M \<longrightarrow> src ! (srcPos + k) = src ! (ref + k))
           \<and> (M < maxLen \<longrightarrow> src ! (srcPos + M) \<noteq> src ! (ref + M))"
  using assms
proof (induction src srcPos ref maxLen m rule: matchLoop.induct)
  case (1 src srcPos ref maxLen m)
  show ?case
  proof (cases "m < maxLen")
    case False
    then have "matchLoop src srcPos ref maxLen m = Inr m"
      by (subst matchLoop.simps) simp
    with False "1.prems" show ?thesis by auto
  next
    case True
    then have inr: "srcPos + m < length src \<and> ref + m < length src"
      using "1.prems" by simp
    show ?thesis
    proof (cases "src ! (srcPos + m) = src ! (ref + m)")
      case False
      then have "matchLoop src srcPos ref maxLen m = Inr m"
        using True inr by (subst matchLoop.simps) simp
      with False True show ?thesis by auto
    next
      case eq: True
      have "m + 1 \<le> maxLen" using True by simp
      from "1.IH" [OF True inr eq this "1.prems"(2,3)]
      obtain M where M: "matchLoop src srcPos ref maxLen (m + 1) = Inr M" "m + 1 \<le> M" "M \<le> maxLen"
        "\<forall>k. m + 1 \<le> k \<and> k < M \<longrightarrow> src ! (srcPos + k) = src ! (ref + k)"
        "M < maxLen \<longrightarrow> src ! (srcPos + M) \<noteq> src ! (ref + M)"
        by blast
      have "matchLoop src srcPos ref maxLen m = Inr M"
        using True inr eq M(1) by (subst matchLoop.simps) simp
      moreover have "\<forall>k. m \<le> k \<and> k < M \<longrightarrow> src ! (srcPos + k) = src ! (ref + k)"
      proof (intro allI impI)
        fix k assume k: "m \<le> k \<and> k < M"
        show "src ! (srcPos + k) = src ! (ref + k)"
        proof (cases "k = m")
          case True
          with eq show ?thesis by simp
        next
          case False
          with k have "m + 1 \<le> k \<and> k < M" by simp
          with M(4) show ?thesis by blast
        qed
      qed
      ultimately show ?thesis using M(2,3,5) by auto
    qed
  qed
qed

definition tableOk :: "hashTable \<Rightarrow> nat \<Rightarrow> bool" where
  "tableOk hashTable srcPos \<longleftrightarrow> (\<forall>h. hashTable h \<noteq> sentinel \<longrightarrow> unat (hashTable h) < srcPos)"

definition matchOk :: "byte list \<Rightarrow> nat \<Rightarrow> 32 word \<Rightarrow> nat \<Rightarrow> bool" where
  "matchOk src srcPos ref matchLen \<longleftrightarrow>
     unat ref < srcPos \<and> srcPos - unat ref \<le> 65535 \<and> minMatchLength \<le> matchLen
     \<and> matchLen \<le> maxMatchLength \<and> srcPos + matchLen \<le> length src
     \<and> (\<forall>k < matchLen. src ! (srcPos + k) = src ! (unat ref + k))"

lemma unat_word_of_nat_le: "unat (word_of_nat n :: 32 word) \<le> n"
  by (simp add: unat_of_nat)

lemma findMatch_inv:
  assumes tbl: "tableOk hashTable srcPos"
    and guard: "srcPos + minMatchLength \<le> length src"
    and small: "length src < 2 ^ 32"
  shows "\<exists>hashTable' m. findMatch src hashTable srcPos = Inr (hashTable', m)
           \<and> tableOk hashTable' (srcPos + 1)
           \<and> (case m of None \<Rightarrow> True | Some (ref, matchLen) \<Rightarrow> matchOk src srcPos ref matchLen)"
proof -
  define h where "h = unat (hashSequence (Uint32 (drop srcPos src)) AND (word_of_nat (hashSize - 1)))"
  define ref where "ref = hashTable h"
  define hashTable' where "hashTable' = hashTable(h := word_of_nat srcPos)"
  define maxLen where "maxLen = min (length src - srcPos) maxMatchLength"
  have t': "tableOk hashTable' (srcPos + 1)"
    unfolding tableOk_def hashTable'_def
  proof (intro allI impI)
    fix i assume "(hashTable(h := word_of_nat srcPos)) i \<noteq> sentinel"
    then show "unat ((hashTable(h := word_of_nat srcPos)) i) < srcPos + 1"
      using tbl unat_word_of_nat_le [of srcPos]
      by (cases "i = h") (auto simp: tableOk_def less_Suc_eq_le intro: less_SucI)
  qed
  have unf: "findMatch src hashTable srcPos =
      (if ref = sentinel \<or> word_of_nat srcPos - ref > maxOffset then Inr (hashTable', None)
         else
           bindE (matchLoop src srcPos (unat ref) maxLen 0)
             (\<lambda>matchLen.
                if matchLen < minMatchLength then Inr (hashTable', None)
                else Inr (hashTable', Some (ref, matchLen))))"
    unfolding findMatch_def Let_def h_def ref_def hashTable'_def maxLen_def ..
  show ?thesis
  proof (cases "ref = sentinel \<or> word_of_nat srcPos - ref > maxOffset")
    case True
    with unf t' show ?thesis by auto
  next
    case False
    then have rs: "ref \<noteq> sentinel" and far: "\<not> word_of_nat srcPos - ref > maxOffset" by simp_all
    from rs tbl have rlt: "unat ref < srcPos" by (simp add: tableOk_def ref_def)
    have sp: "srcPos < 2 ^ 32" using guard small by simp
    then have usp: "unat (word_of_nat srcPos :: 32 word) = srcPos"
      by (simp add: unat_of_nat)
    have "ref \<le> word_of_nat srcPos"
      using rlt usp by (simp add: word_le_nat_alt)
    then have "unat (word_of_nat srcPos - ref) = srcPos - unat ref"
      using usp by (simp add: unat_sub)
    moreover from far have "unat (word_of_nat srcPos - ref) \<le> 65535"
      by (simp add: maxOffset_def word_le_nat_alt not_less)
    ultimately have near: "srcPos - unat ref \<le> 65535" by simp
    have ml: "srcPos + maxLen \<le> length src" using guard by (simp add: maxLen_def)
    from matchLoop_spec [of 0 maxLen srcPos src "unat ref"] ml rlt
    obtain M where M: "matchLoop src srcPos (unat ref) maxLen 0 = Inr M" "M \<le> maxLen"
      "\<forall>k. k < M \<longrightarrow> src ! (srcPos + k) = src ! (unat ref + k)"
      by auto
    show ?thesis
    proof (cases "M < minMatchLength")
      case True
      with unf False M(1) t' show ?thesis by auto
    next
      case nm: False
      have "srcPos + M \<le> length src" using M(2) ml by simp
      moreover have "M \<le> maxMatchLength" using M(2) by (simp add: maxLen_def)
      ultimately have "matchOk src srcPos ref M"
        using rlt near nm M(3) by (simp add: matchOk_def)
      with unf False M(1) t' nm show ?thesis by auto
    qed
  qed
qed

definition decodesTo :: "byte list \<Rightarrow> byte list \<Rightarrow> nat \<Rightarrow> bool" where
  "decodesTo out src a \<longleftrightarrow>
     (\<forall>post D. length src \<le> length D \<longrightarrow>
        (\<exists>D'. length D' = length D \<and> take a D' = take a src
           \<and> decodeLoop (out @ post) \<lparr>d_dst = D, d_srcPos = 0, d_dstPos = 0\<rparr>
             = decodeLoop (out @ post) \<lparr>d_dst = D', d_srcPos = length out, d_dstPos = a\<rparr>))"

definition scanInv :: "byte list \<Rightarrow> byte list \<Rightarrow> cstate \<Rightarrow> bool" where
  "scanInv src dst0 st \<longleftrightarrow>
     c_anchor st \<le> c_srcPos st \<and> c_srcPos st \<le> length src
     \<and> tableOk (c_hashTable st) (c_srcPos st)
     \<and> (\<exists>out. c_dst st = copyInto dst0 0 out \<and> c_dstPos st = length out
            \<and> length out \<le> c_anchor st + c_anchor st div 255
            \<and> (c_anchor st = 0 \<or> out \<noteq> [])
            \<and> decodesTo out src (c_anchor st))"

lemma decodesTo_Nil: "decodesTo [] src 0"
  by (auto simp: decodesTo_def)

lemma take_slice: "a \<le> sp \<Longrightarrow> take a src @ slice src a sp = take sp src"
  using take_add [of a "sp - a" src] by (simp add: slice_def)

lemma length_encSequence_bound:
  assumes "minMatchLength \<le> M"
  shows "length (encSequence lits off M) \<le> length lits + M + length lits div 255"
  using assms
  by (simp add: length_encSequence length_encLiterals minMatchLength_def) arith

lemma length_encLiterals_bound:
  "length (encLiterals token lits) \<le> length lits + 2 + length lits div 255"
  by (simp add: length_encLiterals) arith

lemma decodesTo_seq:
  assumes d: "decodesTo out src a"
    and a: "a \<le> sp"
    and m: "matchOk src sp ref M"
  shows "decodesTo (out @ encSequence (slice src a sp) (sp - unat ref) M) src (sp + M)"
  unfolding decodesTo_def
proof (intro allI impI)
  fix post D :: "byte list"
  assume len: "length src \<le> length D"
  define lits where "lits = slice src a sp"
  define off where "off = sp - unat ref"
  define enc where "enc = encSequence lits off M"
  define C where "C = out @ enc @ post"
  from m have mo: "unat ref < sp" "off \<le> 65535" "minMatchLength \<le> M" "sp + M \<le> length src"
    "\<forall>k < M. src ! (sp + k) = src ! (unat ref + k)"
    by (simp_all add: matchOk_def off_def)
  have L: "length lits = sp - a" using mo(4) by (simp add: lits_def length_slice)
  from d len obtain D1 where D1: "length D1 = length D" "take a D1 = take a src"
    "decodeLoop C \<lparr>d_dst = D, d_srcPos = 0, d_dstPos = 0\<rparr>
       = decodeLoop C \<lparr>d_dst = D1, d_srcPos = length out, d_dstPos = a\<rparr>"
    unfolding decodesTo_def C_def by blast
  define st where "st = \<lparr>d_dst = D1, d_srcPos = length out, d_dstPos = a\<rparr>"
  have "\<exists>D'. decodeStep C st =
             DNext \<lparr>d_dst = D', d_srcPos = length out + length (encSequence lits off M),
                    d_dstPos = d_dstPos st + length lits + M\<rparr>
        \<and> length D' = length (d_dst st)
        \<and> take (d_dstPos st + length lits) D' = take (d_dstPos st) (d_dst st) @ lits
        \<and> (\<forall>k < M. D' ! (d_dstPos st + length lits + k) = D' ! (d_dstPos st + length lits - off + k))"
  proof (rule decodeStep_seq)
    show "C = out @ encSequence lits off M @ post" by (simp add: C_def enc_def)
    show "d_srcPos st = length out" by (simp add: st_def)
    show "minMatchLength \<le> M" by (rule mo(3))
    show "0 < off" using mo(1) by (simp add: off_def)
    show "off \<le> d_dstPos st + length lits" using a by (simp add: st_def L off_def)
    show "off < 65536" using mo(2) by simp
    show "d_dstPos st + length lits + M \<le> length (d_dst st)"
      using a mo(4) len D1(1) by (simp add: st_def L)
  qed
  then obtain D2 where D2: "decodeStep C st =
             DNext \<lparr>d_dst = D2, d_srcPos = length out + length enc, d_dstPos = sp + M\<rparr>"
      "length D2 = length D1"
      "take sp D2 = take a D1 @ lits"
      "\<forall>k < M. D2 ! (sp + k) = D2 ! (sp - off + k)"
    using a by (auto simp: st_def L enc_def)
  have tsp: "take sp D2 = take sp src"
    using D2(3) D1(2) take_slice [OF a, of src] by (simp add: lits_def)
  have ro: "sp - off = unat ref" using mo(1) by (simp add: off_def)
  have "take (sp + M) D2 = take (sp + M) src"
  proof (rule run_eq [where ref = "unat ref"])
    show "take sp D2 = take sp src" by (rule tsp)
    show "unat ref < sp" by (rule mo(1))
    show "sp + M \<le> length D2" using mo(4) len D1(1) D2(2) by simp
    show "sp + M \<le> length src" by (rule mo(4))
    show "\<forall>k<M. D2 ! (sp + k) = D2 ! (unat ref + k)" using D2(4) ro by simp
    show "\<forall>k<M. src ! (sp + k) = src ! (unat ref + k)" by (rule mo(5))
  qed
  moreover have "length enc > 0"
    by (simp add: enc_def encSequence_def encLiterals_def)
  then have "decodeLoop C st = decodeLoop C \<lparr>d_dst = D2, d_srcPos = length out + length enc, d_dstPos = sp + M\<rparr>"
    using D2(1) by (subst decodeLoop.simps) (simp add: st_def C_def)
  ultimately show "\<exists>D'. length D' = length D \<and> take (sp + M) D' = take (sp + M) src
           \<and> decodeLoop ((out @ encSequence (slice src a sp) (sp - unat ref) M) @ post)
                \<lparr>d_dst = D, d_srcPos = 0, d_dstPos = 0\<rparr>
             = decodeLoop ((out @ encSequence (slice src a sp) (sp - unat ref) M) @ post)
                \<lparr>d_dst = D', d_srcPos = length (out @ encSequence (slice src a sp) (sp - unat ref) M),
                   d_dstPos = sp + M\<rparr>"
    using D1(1,3) D2(2)
    by (auto simp: C_def enc_def lits_def off_def st_def intro!: exI [of _ D2])
qed

lemma scanStep_inv:
  assumes inv: "scanInv src dst0 st"
    and guard: "scanGuard src st"
    and small: "length src < 2 ^ 32"
    and room: "length src + length src div 255 \<le> length dst0"
  shows "\<exists>st'. scanStep src st = Inr st' \<and> scanInv src dst0 st'"
proof -
  define a where "a = c_anchor st"
  define sp where "sp = c_srcPos st"
  from inv obtain out where
    i: "a \<le> sp" "sp \<le> length src" "tableOk (c_hashTable st) sp"
      "c_dst st = copyInto dst0 0 out" "c_dstPos st = length out"
      "length out \<le> a + a div 255" "a = 0 \<or> out \<noteq> []" "decodesTo out src a"
    unfolding scanInv_def a_def sp_def by blast
  from guard have g: "sp + minMatchLength \<le> length src"
    by (simp add: scanGuard_def sp_def)
  from findMatch_inv [OF i(3) g small]
  obtain hashTable' m where fm: "findMatch src (c_hashTable st) sp = Inr (hashTable', m)"
    "tableOk hashTable' (sp + 1)"
    "case m of None \<Rightarrow> True | Some (ref, matchLen) \<Rightarrow> matchOk src sp ref matchLen"
    by blast
  show ?thesis
  proof (cases m)
    case None
    have "scanStep src st = Inr (st\<lparr>c_hashTable := hashTable', c_srcPos := sp + 1\<rparr>)"
      using fm(1) None by (simp add: scanStep_def sp_def)
    moreover have "scanInv src dst0 (st\<lparr>c_hashTable := hashTable', c_srcPos := sp + 1\<rparr>)"
      unfolding scanInv_def using i g fm(2)
      by (auto simp: a_def [symmetric] minMatchLength_def)
    ultimately show ?thesis by blast
  next
    case (Some rm)
    obtain ref M where rm: "rm = (ref, M)" by (cases rm)
    with fm(3) Some have mo: "matchOk src sp ref M" by simp
    then have mo': "unat ref < sp" "minMatchLength \<le> M" "sp + M \<le> length src"
      by (simp_all add: matchOk_def)
    define lits where "lits = slice src a sp"
    define enc where "enc = encSequence lits (sp - unat ref) M"
    have L: "length lits = sp - a" using i(2) by (simp add: lits_def length_slice)
    have eb: "length enc \<le> (sp - a) + M + (sp - a) div 255"
      using length_encSequence_bound [OF mo'(2), of lits "sp - unat ref"] by (simp add: enc_def L)
    have ob: "length out + length enc \<le> (sp + M) + (sp + M) div 255"
      using eb i(1,6) by arith
    have "(sp + M) + (sp + M) div 255 \<le> length src + length src div 255"
      using mo'(3) by (intro add_mono div_le_mono) simp_all
    with ob room have fits: "length out + length enc \<le> length dst0" by simp
    have ld: "length (c_dst st) = length dst0" by (simp add: i(4))
    have em: "emitSequence src (c_dst st) (length out) a sp ref M =
        Inr (copyInto (c_dst st) (length out) enc, length out + length enc)"
      unfolding enc_def lits_def
      using i(1,2) mo'(1) fits [unfolded enc_def lits_def] ld
      by (intro emitSequence_ok) simp_all
    have cd: "copyInto (c_dst st) (length out) enc = copyInto dst0 0 (out @ enc)"
      using copyInto_append [of 0 out enc dst0] fits by (simp add: i(4))
    define st' where "st' = st\<lparr>c_hashTable := hashTable', c_dst := copyInto dst0 0 (out @ enc),
        c_dstPos := length out + length enc, c_srcPos := sp + M, c_anchor := sp + M\<rparr>"
    have "scanStep src st = Inr st'"
      using fm(1) Some rm em cd
      by (simp add: scanStep_def sp_def [symmetric] a_def [symmetric] i(5) st'_def)
    moreover have "scanInv src dst0 st'"
      unfolding scanInv_def
    proof (intro conjI exI [of _ "out @ enc"])
      show "c_anchor st' \<le> c_srcPos st'" by (simp add: st'_def)
      show "c_srcPos st' \<le> length src" using mo'(3) by (simp add: st'_def)
      show "tableOk (c_hashTable st') (c_srcPos st')"
        using fm(2) mo'(2) by (auto simp: st'_def tableOk_def minMatchLength_def)
      show "c_dst st' = copyInto dst0 0 (out @ enc)" by (simp add: st'_def)
      show "c_dstPos st' = length (out @ enc)" by (simp add: st'_def)
      show "length (out @ enc) \<le> c_anchor st' + c_anchor st' div 255"
        using ob by (simp add: st'_def)
      show "c_anchor st' = 0 \<or> out @ enc \<noteq> []"
        by (simp add: enc_def encSequence_def encLiterals_def)
      show "decodesTo (out @ enc) src (c_anchor st')"
        using decodesTo_seq [OF i(8) i(1) mo] by (simp add: st'_def enc_def lits_def)
    qed
    ultimately show ?thesis by blast
  qed
qed

lemma scanLoop_inv:
  assumes "scanInv src dst0 st"
    and small: "length src < 2 ^ 32"
    and room: "length src + length src div 255 \<le> length dst0"
  shows "\<exists>st'. scanLoop src st = Inr st' \<and> scanInv src dst0 st' \<and> \<not> scanGuard src st'"
  using assms
proof (induction src st rule: scanLoop.induct)
  case (1 src st)
  show ?case
  proof (cases "scanGuard src st")
    case False
    then have "scanLoop src st = Inr st" by (subst scanLoop.simps) simp
    with False "1.prems" show ?thesis by blast
  next
    case True
    from scanStep_inv [OF "1.prems"(1) True "1.prems"(2,3)]
    obtain st1 where s: "scanStep src st = Inr st1" "scanInv src dst0 st1" by blast
    from "1.IH" [OF True s(1) s(2) "1.prems"(2,3)]
    obtain st' where "scanLoop src st1 = Inr st'" "scanInv src dst0 st'" "\<not> scanGuard src st'"
      by blast
    moreover have "scanLoop src st = scanLoop src st1"
      using True s(1) by (subst scanLoop.simps) simp
    ultimately show ?thesis by auto
  qed
qed

lemma scanInv_init:
  "scanInv src dst \<lparr>c_hashTable = (\<lambda>i. sentinel), c_dst = dst, c_dstPos = 0,
                     c_anchor = 0, c_srcPos = 0\<rparr>"
  by (simp add: scanInv_def tableOk_def decodesTo_Nil)

lemma compressBlock_correct:
  assumes ne: "src \<noteq> []"
    and small: "length src < 2 ^ 32"
    and room: "length src + length src div 255 + 2 \<le> length dst"
  shows "\<exists>out hashTable'. compressBlock src dst hashTable = Inr (length out, copyInto dst 0 out, hashTable')
           \<and> out \<noteq> [] \<and> length out \<le> length src + length src div 255 + 2
           \<and> (\<forall>D. length src \<le> length D \<longrightarrow>
                 (\<exists>D'. decompressBlock out D = (length src, None, D')
                        \<and> take (length src) D' = src \<and> length D' = length D))"
proof -
  define st0 where "st0 = \<lparr>c_hashTable = (\<lambda>i. sentinel), c_dst = dst, c_dstPos = 0,
                     c_anchor = 0, c_srcPos = (0::nat)\<rparr>"
  have room': "length src + length src div 255 \<le> length dst" using room by simp
  from scanLoop_inv [OF scanInv_init small room', folded st0_def]
  obtain st where st: "scanLoop src st0 = Inr st" "scanInv src dst st" "\<not> scanGuard src st"
    by blast
  define a where "a = c_anchor st"
  from st(2) obtain out where
    i: "a \<le> c_srcPos st" "c_srcPos st \<le> length src"
      "c_dst st = copyInto dst 0 out" "c_dstPos st = length out"
      "length out \<le> a + a div 255" "a = 0 \<or> out \<noteq> []" "decodesTo out src a"
    unfolding scanInv_def a_def by blast
  have al: "a \<le> length src" using i(1,2) by simp
  have unf: "compressBlock src dst hashTable =
        (if a < length src then
          (if length out + 1 + (length src - a) > length (c_dst st) then Inl ErrBlockTooLarge
              else
                bindE (putLiterals src (c_dst st) (length out) (literalToken (length src - a)) a (length src))
                  (\<lambda>(dst', dstPos'). Inr (dstPos', dst', c_hashTable st)))
        else Inr (length out, c_dst st, c_hashTable st))"
    using ne st(1) by (simp add: compressBlock_def st0_def [symmetric] Let_def a_def i(4))
  show ?thesis
  proof (cases "a < length src")
    case False
    with al have a: "a = length src" by simp
    with ne i(6) have one: "out \<noteq> []" by simp
    have cb: "compressBlock src dst hashTable = Inr (length out, copyInto dst 0 out, c_hashTable st)"
      using unf False i(3) by simp
    have lo: "length out \<le> length src + length src div 255 + 2" using i(5) a by simp
    have dec: "\<exists>D'. decompressBlock out D = (length src, None, D')
                        \<and> take (length src) D' = src \<and> length D' = length D"
      if len: "length src \<le> length D" for D
    proof -
      from i(7) len obtain D1 where D1: "length D1 = length D" "take a D1 = take a src"
        "decodeLoop (out @ []) \<lparr>d_dst = D, d_srcPos = 0, d_dstPos = 0\<rparr>
           = decodeLoop (out @ []) \<lparr>d_dst = D1, d_srcPos = length out, d_dstPos = a\<rparr>"
        unfolding decodesTo_def by blast
      have "decodeLoop out \<lparr>d_dst = D1, d_srcPos = length out, d_dstPos = a\<rparr>
          = (\<lparr>d_dst = D1, d_srcPos = length out, d_dstPos = a\<rparr>, None)"
        by (subst decodeLoop.simps) simp
      with D1 a show ?thesis by (simp add: decompressBlock_def)
    qed
    from cb one lo dec show ?thesis by blast
  next
    case True
    define lits where "lits = slice src a (length src)"
    define el where "el = encLiterals (literalToken (length src - a)) lits"
    have L: "length lits = length src - a" by (simp add: lits_def length_slice)
    have eb: "length el \<le> (length src - a) + 2 + (length src - a) div 255"
      using length_encLiterals_bound [of "literalToken (length src - a)" lits] by (simp add: el_def L)
    have ob: "length out + length el \<le> length src + length src div 255 + 2"
      using eb i(5) al by arith
    with room have fits: "length out + length el \<le> length dst" by simp
    have e1: "length el \<ge> 1 + (length src - a)"
      by (simp add: el_def encLiterals_def L)
    have ld: "length (c_dst st) = length dst" by (simp add: i(3))
    have chk: "\<not> length out + 1 + (length src - a) > length (c_dst st)"
      using fits e1 ld by simp
    have pl: "putLiterals src (c_dst st) (length out) (literalToken (length src - a)) a (length src)
        = Inr (copyInto (c_dst st) (length out) el, length out + length el)"
      unfolding el_def lits_def
      using al fits [unfolded el_def lits_def] ld
      by (intro putLiterals_ok) simp_all
    have cd: "copyInto (c_dst st) (length out) el = copyInto dst 0 (out @ el)"
      using copyInto_append [of 0 out el dst] fits by (simp add: i(3))
    have cb: "compressBlock src dst hashTable
        = Inr (length (out @ el), copyInto dst 0 (out @ el), c_hashTable st)"
      using unf True chk pl cd by simp
    have one: "out @ el \<noteq> []" by (simp add: el_def encLiterals_def)
    have dec: "\<exists>D'. decompressBlock (out @ el) D = (length src, None, D')
                        \<and> take (length src) D' = src \<and> length D' = length D"
      if len: "length src \<le> length D" for D
    proof -
      from i(7) len obtain D1 where D1: "length D1 = length D" "take a D1 = take a src"
        "decodeLoop (out @ el) \<lparr>d_dst = D, d_srcPos = 0, d_dstPos = 0\<rparr>
           = decodeLoop (out @ el) \<lparr>d_dst = D1, d_srcPos = length out, d_dstPos = a\<rparr>"
        unfolding decodesTo_def by blast
      define st1 where "st1 = \<lparr>d_dst = D1, d_srcPos = length out, d_dstPos = a\<rparr>"
      have ds: "decodeStep (out @ el) st1 =
           DBreak \<lparr>d_dst = copyInto (d_dst st1) (d_dstPos st1) lits, d_srcPos = length (out @ el),
                   d_dstPos = d_dstPos st1 + length lits\<rparr>"
      proof (rule decodeStep_last)
        show "out @ el = out @ encLiterals (literalToken (length lits)) lits"
          by (simp add: el_def L)
        show "d_srcPos st1 = length out" by (simp add: st1_def)
        show "d_dstPos st1 + length lits \<le> length (d_dst st1)"
          using al len D1(1) by (simp add: st1_def L)
        show "d_dstPos st1 < length (d_dst st1)"
          using True len D1(1) by (simp add: st1_def)
      qed
      have "el \<noteq> []" by (simp add: el_def encLiterals_def)
      then have pos: "d_srcPos st1 < length (out @ el)"
        by (simp add: st1_def)
      have dl: "decodeLoop (out @ el) st1 =
          (\<lparr>d_dst = copyInto D1 a lits, d_srcPos = length (out @ el), d_dstPos = length src\<rparr>, None)"
        using pos ds al by (subst decodeLoop.simps) (simp add: st1_def L)
      have "a + length lits \<le> length D1" using al len D1(1) by (simp add: L)
      then have "take (a + length lits) (copyInto D1 a lits) = take a D1 @ lits"
        by (rule take_copyInto)
      moreover have "a + length lits = length src" using al by (simp add: L)
      moreover have "take a src @ lits = src"
        using take_slice [OF al, of src] by (simp add: lits_def)
      ultimately have "take (length src) (copyInto D1 a lits) = src"
        using D1(2) by simp
      with D1 dl show ?thesis
        by (simp add: decompressBlock_def st1_def)
    qed
    from cb one ob dec show ?thesis by (intro exI [of _ "out @ el"]) auto
  qed
qed

section \<open>Correctness of the streaming adapters\<close>

definition worstCase :: "nat \<Rightarrow> nat" where
  "worstCase n = n + n div 255 + 16"

definition compressed :: "byte list \<Rightarrow> byte list" where
  "compressed b =
     (case compressBlock b (replicate (worstCase (length b)) 0) (\<lambda>i. 0) of
        Inl e \<Rightarrow> []
      | Inr (n, d, h) \<Rightarrow> take n d)"

definition blockRecord :: "byte list \<Rightarrow> byte list" where
  "blockRecord b = PutUint32 (word_of_nat (length (compressed b))) @ compressed b"

function blocksOf :: "byte list \<Rightarrow> byte list list" where
  "blocksOf p = (if p = [] then [] else take defaultBlockSize p # blocksOf (drop defaultBlockSize p))"
  by pat_completeness auto
termination
  by (relation "measure length") (auto simp: defaultBlockSize_def)

declare blocksOf.simps [simp del]

lemma compressBlock_hashTable:
  "src \<noteq> [] \<Longrightarrow> compressBlock src dst hashTable = compressBlock src dst hashTable'"
  by (simp add: compressBlock_def)

lemma take_copyInto0: "length out \<le> length dst \<Longrightarrow> take (length out) (copyInto dst 0 out) = out"
  using take_copyInto [of 0 out dst] by simp

lemma compressBlock_compressed:
  assumes ne: "b \<noteq> []" and small: "length b < 2 ^ 32"
  shows "\<exists>d hashTable'. compressBlock b (replicate (worstCase (length b)) 0) hashTable
             = Inr (length (compressed b), d, hashTable')
           \<and> length d = worstCase (length b)
           \<and> take (length (compressed b)) d = compressed b
           \<and> compressed b \<noteq> []
           \<and> length (compressed b) \<le> length b + length b div 255 + 2
           \<and> (\<forall>D. length b \<le> length D \<longrightarrow>
                 (\<exists>D'. decompressBlock (compressed b) D = (length b, None, D')
                        \<and> take (length b) D' = b \<and> length D' = length D))"
proof -
  define dst where "dst = replicate (worstCase (length b)) (0 :: byte)"
  have room: "length b + length b div 255 + 2 \<le> length dst"
    by (simp add: dst_def worstCase_def)
  from compressBlock_correct [OF ne small room, of "\<lambda>i. 0"]
  obtain out h0 where o: "compressBlock b dst (\<lambda>i. 0) = Inr (length out, copyInto dst 0 out, h0)"
    "out \<noteq> []" "length out \<le> length b + length b div 255 + 2"
    "\<forall>D. length b \<le> length D \<longrightarrow>
                 (\<exists>D'. decompressBlock out D = (length b, None, D')
                        \<and> take (length b) D' = b \<and> length D' = length D)"
    by blast
  have lo: "length out \<le> length dst" using o(3) room by simp
  have c: "compressed b = out"
    using o(1) lo by (simp add: compressed_def dst_def [symmetric] take_copyInto0)
  have "compressBlock b dst hashTable = Inr (length out, copyInto dst 0 out, h0)"
    using o(1) compressBlock_hashTable [OF ne, of dst hashTable "\<lambda>i. 0"] by simp
  with o lo show ?thesis
    unfolding c dst_def [symmetric]
    by (intro exI [of _ "copyInto dst 0 out"] exI [of _ h0]) (simp add: take_copyInto0 dst_def)
qed

lemma length_blocksOf_le: "b \<in> set (blocksOf p) \<Longrightarrow> b \<noteq> [] \<and> length b \<le> defaultBlockSize"
proof (induction p rule: blocksOf.induct)
  case (1 p)
  show ?case
  proof (cases "p = []")
    case True
    with "1.prems" show ?thesis by (simp add: blocksOf.simps)
  next
    case False
    with "1.prems" have "b = take defaultBlockSize p \<or> b \<in> set (blocksOf (drop defaultBlockSize p))"
      by (subst (asm) blocksOf.simps) simp
    with False "1.IH" show ?thesis
      by (auto simp: defaultBlockSize_def)
  qed
qed

lemma concat_blocksOf: "concat (blocksOf p) = p"
proof (induction p rule: blocksOf.induct)
  case (1 p)
  show ?case
  proof (cases "p = []")
    case True
    then show ?thesis by (simp add: blocksOf.simps)
  next
    case False
    with "1.IH" show ?thesis by (subst blocksOf.simps) simp
  qed
qed

lemma writeLoop_ok:
  "\<exists>hashTable'. writeLoop w p totalWritten =
      (w\<lparr>w_dst := w_dst w @ concat (map blockRecord (blocksOf p)), w_hashTable := hashTable'\<rparr>,
       totalWritten + length p, None)"
proof (induction w p totalWritten rule: writeLoop.induct)
  case (1 w p totalWritten)
  show ?case
  proof (cases "length p > 0")
    case False
    then have "writeLoop w p totalWritten = (w, totalWritten, None)"
      by (subst writeLoop.simps) simp
    with False show ?thesis
      by (intro exI [of _ "w_hashTable w"]) (simp add: blocksOf.simps)
  next
    case True
    define chunkSize where "chunkSize = (if defaultBlockSize > length p then length p else defaultBlockSize)"
    define b where "b = take chunkSize p"
    have lb: "length b = chunkSize" by (simp add: b_def chunkSize_def)
    have bt: "b = take defaultBlockSize p" by (simp add: b_def chunkSize_def)
    have dr: "drop chunkSize p = drop defaultBlockSize p" by (simp add: chunkSize_def)
    have ne: "b \<noteq> []" using True by (simp add: b_def chunkSize_def defaultBlockSize_def)
    have small: "length b < 2 ^ 32" by (simp add: lb chunkSize_def defaultBlockSize_def)
    from compressBlock_compressed [OF ne small, of "w_hashTable w"]
    obtain d h1 where c: "compressBlock b (replicate (worstCase (length b)) 0) (w_hashTable w)
             = Inr (length (compressed b), d, h1)"
        "length d = worstCase (length b)" "take (length (compressed b)) d = compressed b"
        "length (compressed b) \<le> length b + length b div 255 + 2"
      by blast
    have nle: "\<not> length (compressed b) > length d" using c(2,4) by (simp add: worstCase_def)
    define w1 where "w1 = w\<lparr>w_dst := w_dst w @ PutUint32 (word_of_nat (length (compressed b))) @ compressed b,
                                w_hashTable := h1\<rparr>"
    have step: "writeLoop w p totalWritten = writeLoop w1 (drop chunkSize p) (totalWritten + chunkSize)"
      using True c(1) nle c(3)
      by (subst writeLoop.simps)
         (simp add: Let_def chunkSize_def [symmetric] b_def [symmetric] lb worstCase_def w1_def)
    have cs: "chunkSize = (if length p < defaultBlockSize then length p else defaultBlockSize)"
      by (simp add: chunkSize_def)
    have cIH: "compressBlock (take chunkSize p) (replicate (chunkSize + chunkSize div 255 + 16) 0)
        (w_hashTable w) = Inr (length (compressed b), d, h1)"
      using c(1) by (simp add: lb worstCase_def b_def [symmetric])
    have nle': "\<not> length d < length (compressed b)" using nle by simp
    from "1.IH" [OF True cs refl refl cIH refl refl nle']
    have "\<exists>hashTable'. writeLoop w1 (drop chunkSize p) (totalWritten + chunkSize) =
      (w1\<lparr>w_dst := w_dst w1 @ concat (map blockRecord (blocksOf (drop chunkSize p))), w_hashTable := hashTable'\<rparr>,
       totalWritten + chunkSize + length (drop chunkSize p), None)"
      using nle c(3) by (simp add: w1_def b_def lb)
    then obtain h2 where h2: "writeLoop w1 (drop chunkSize p) (totalWritten + chunkSize) =
      (w1\<lparr>w_dst := w_dst w1 @ concat (map blockRecord (blocksOf (drop chunkSize p))), w_hashTable := h2\<rparr>,
       totalWritten + chunkSize + length (drop chunkSize p), None)" by blast
    have bo: "blocksOf p = b # blocksOf (drop chunkSize p)"
      using True by (subst blocksOf.simps) (simp add: bt dr)
    have "chunkSize + length (drop chunkSize p) = length p" by (simp add: chunkSize_def)
    then show ?thesis
      unfolding step h2 bo
      by (intro exI [of _ h2]) (simp add: w1_def blockRecord_def [of b] add.assoc)
  qed
qed

lemma Uint32_PutUint32: "Uint32 (PutUint32 v) = v"
proof (rule bit_word_eqI)
  fix n assume "n < LENGTH(32)"
  then consider "n < 8" | "8 \<le> n" "n < 16" | "16 \<le> n" "n < 24" | "24 \<le> n" "n < 32"
    by fastforce
  then show "bit (Uint32 (PutUint32 v)) n = bit v n"
    unfolding Uint32_def PutUint32_def
    by cases (auto simp: bit_simps)
qed

lemma length_PutUint32 [simp]: "length (PutUint32 v) = 4"
  by (simp add: PutUint32_def)

lemma size_word_facts:
  assumes "0 < k" "k \<le> maxBlockSize"
  shows "unat (word_of_nat k :: 32 word) = k"
    and "(word_of_nat k :: 32 word) \<noteq> 0"
    and "(word_of_nat k :: 32 word) AND 0x80000000 = 0"
    and "\<not> (word_of_nat k :: 32 word) > word_of_nat maxBlockSize"
proof -
  show u: "unat (word_of_nat k :: 32 word) = k"
    using assms by (simp add: unat_of_nat maxBlockSize_def)
  show "(word_of_nat k :: 32 word) \<noteq> 0"
  proof
    assume "(word_of_nat k :: 32 word) = 0"
    then have "unat (word_of_nat k :: 32 word) = 0" by simp
    with u assms(1) show False by simp
  qed
  have "unat ((word_of_nat k :: 32 word) div 2 ^ 31) = k div 2 ^ 31"
    by (simp add: unat_div u)
  also have "\<dots> = 0" using assms(2) by (simp add: maxBlockSize_def)
  finally have "(word_of_nat k :: 32 word) div 2 ^ 31 = 0"
    by (simp add: unat_eq_zero)
  then have "\<not> bit (word_of_nat k :: 32 word) 31"
    by (simp add: bit_iff_odd)
  then have "(word_of_nat k :: 32 word) AND 2 ^ 31 = 0"
    using and_exp_eq_0_iff_not_bit [of "word_of_nat k :: 32 word" 31] by blast
  then show "(word_of_nat k :: 32 word) AND 0x80000000 = 0" by simp
  have "unat (word_of_nat maxBlockSize :: 32 word) = maxBlockSize"
    by (simp add: unat_of_nat maxBlockSize_def)
  with u assms(2) show "\<not> (word_of_nat k :: 32 word) > word_of_nat maxBlockSize"
    by (simp add: word_less_nat_alt)
qed

lemma readBlock_SizeErr_EOF:
  "readBlock src = (SizeErr EOF, src1) \<Longrightarrow> src = [] \<and> src1 = []"
  by (auto simp: readBlock_def ReadFull_def Let_def split: if_splits prod.splits option.splits)

lemma readLoop_progress:
  "readLoop r plen out = (r', out', None) \<Longrightarrow>
     length (r_src r') < length (r_src r)
     \<or> (r' = r \<and> (\<not> (length out < plen \<and> \<not> r_eof r) \<or> out \<noteq> []))"
proof (induction r plen out rule: readLoop.induct)
  case (1 r plen out)
  show ?case
  proof (cases "length out < plen \<and> \<not> r_eof r")
    case False
    with "1.prems" show ?thesis by (subst (asm) readLoop.simps) auto
  next
    case True
    obtain res src1 where rb: "readBlock (r_src r) = (res, src1)" by (cases "readBlock (r_src r)")
    show ?thesis
    proof (cases res)
      case (SizeErr err)
      with "1.prems" True rb have "err = EOF" "out \<noteq> []" "r' = r\<lparr>r_src := src1\<rparr>"
        by (subst (asm) readLoop.simps; auto split: if_splits)+
      moreover from rb SizeErr \<open>err = EOF\<close> have "r_src r = []" "src1 = []"
        using readBlock_SizeErr_EOF by blast+
      ultimately show ?thesis by simp
    next
      case BlockEnd
      with "1.prems" True rb have "r' = r\<lparr>r_src := src1, r_eof := True\<rparr>"
        by (subst (asm) readLoop.simps) auto
      with readBlock_length(3) rb BlockEnd show ?thesis by auto
    next
      case (BlockErr err)
      with "1.prems" True rb show ?thesis
        by (subst (asm) readLoop.simps) auto
    next
      case (BlockData data)
      from rb BlockData have lt: "length src1 < length (r_src r)"
        using readBlock_length(2) by blast
      show ?thesis
      proof (cases "length data > plen - length out")
        case big: True
        with "1.prems" True rb BlockData have "r_src r' = src1"
          by (subst (asm) readLoop.simps) (auto simp: Let_def)
        with lt show ?thesis by simp
      next
        case small: False
        with "1.prems" True rb BlockData
        have rec: "readLoop (r\<lparr>r_src := src1\<rparr>) plen (out @ data) = (r', out', None)"
          by (subst (asm) readLoop.simps) (auto simp: Let_def)
        from "1.IH" [OF True rb [symmetric] BlockData refl small rec]
        have "length (r_src r') < length src1 \<or> r' = r\<lparr>r_src := src1\<rparr>" by auto
        with lt show ?thesis by auto
      qed
    qed
  qed
qed

definition leftoverRest :: "reader \<Rightarrow> nat" where
  "leftoverRest r = length (r_leftover r) - r_leftoverPos r"

lemma readBody_progress:
  assumes "0 < plen" "\<not> r_eof r" "readBody r plen = (r', d, None)"
  shows "length (r_src r') < length (r_src r)
     \<or> (length (r_src r') = length (r_src r) \<and> leftoverRest r' < leftoverRest r)"
proof (cases "r_leftoverPos r < length (r_leftover r)")
  case False
  with assms(3) have "readLoop r plen [] = (r', d, None)" by (simp add: readBody_def)
  from readLoop_progress [OF this] assms(1,2) show ?thesis by auto
next
  case True
  define toCopy where "toCopy = (if length (r_leftover r) - r_leftoverPos r > plen then plen
                       else length (r_leftover r) - r_leftoverPos r)"
  define out where "out = slice (r_leftover r) (r_leftoverPos r) (r_leftoverPos r + toCopy)"
  define r1 where "r1 = r\<lparr>r_leftoverPos := r_leftoverPos r + toCopy\<rparr>"
  define r2 where "r2 = (if r_leftoverPos r1 \<ge> length (r_leftover r1)
                   then r1\<lparr>r_leftover := [], r_leftoverPos := 0\<rparr> else r1)"
  have tc: "0 < toCopy" "toCopy \<le> length (r_leftover r) - r_leftoverPos r"
    using True assms(1) by (auto simp: toCopy_def)
  have r2: "r_src r2 = r_src r" "leftoverRest r2 < leftoverRest r"
    using tc True by (auto simp: r2_def r1_def leftoverRest_def)
  have lo: "out \<noteq> []"
    using tc by (auto simp: out_def slice_def)
  have unf: "readBody r plen = (if toCopy \<ge> plen then (r2, out, None) else readLoop r2 plen out)"
    using True unfolding readBody_def Let_def toCopy_def out_def r1_def r2_def by simp
  show ?thesis
  proof (cases "toCopy \<ge> plen")
    case True
    with unf assms(3) r2 show ?thesis by simp
  next
    case False
    with unf assms(3) have "readLoop r2 plen out = (r', d, None)" by simp
    from readLoop_progress [OF this] lo r2 show ?thesis by auto
  qed
qed

lemma readBody_src_le:
  assumes "0 < plen" "\<not> r_eof r" "readBody r plen = (r', d, None)"
  shows "length (r_src r') \<le> length (r_src r)"
  using readBody_progress [OF assms] by auto

lemma ReadFrameHeader_length:
  "ReadFrameHeader src = (Inr header, src1) \<Longrightarrow> length src1 < length src"
  by (auto simp: ReadFrameHeader_def ReadFull_def Let_def
      split: if_splits prod.splits option.splits sum.splits)

lemma Read_progress:
  assumes "0 < plen" "Read r plen = (r', d, None)"
  shows "length (r_src r') < length (r_src r)
     \<or> (length (r_src r') = length (r_src r) \<and> leftoverRest r' < leftoverRest r)"
proof -
  from assms(2) have ne: "\<not> r_eof r" by (auto simp: Read_def)
  show ?thesis
  proof (cases "r_headerRead r")
    case True
    with assms(2) ne have "readBody r plen = (r', d, None)" by (simp add: Read_def)
    from readBody_progress [OF assms(1) ne this] show ?thesis .
  next
    case False
    with assms(2) ne obtain header src1 where
      h: "ReadFrameHeader (r_src r) = (Inr header, src1)"
        "readBody (r\<lparr>r_src := src1, r_headerRead := True\<rparr>) plen = (r', d, None)"
      by (auto simp: Read_def split: prod.splits sum.splits option.splits)
    from readBody_src_le [OF assms(1) _ h(2)] ne have "length (r_src r') \<le> length src1" by simp
    with ReadFrameHeader_length [OF h(1)] show ?thesis by simp
  qed
qed

text \<open>
  \<open>DecompressStream\<close>: the loop calls \<open>Read\<close> with a 64 KiB buffer and appends what it
  delivered to the destination until \<open>Read\<close> reports \<open>io.EOF\<close> or an error.
\<close>

function DecompressLoop :: "reader \<Rightarrow> byte list \<Rightarrow> byte list \<times> error option" where
  "DecompressLoop r dst =
     (case Read r (64 * 1024) of
        (r', buf, err) \<Rightarrow>
          let dst' = (if length buf > 0 then dst @ buf else dst) in
          if err = Some EOF then (dst', None)
          else (case err of Some e \<Rightarrow> (dst', Some e) | None \<Rightarrow> DecompressLoop r' dst'))"
  by pat_completeness auto
termination
proof (relation "inv_image (less_than <*lex*> less_than) (\<lambda>(r, dst). (length (r_src r), leftoverRest r))")
  show "wf (inv_image (less_than <*lex*> less_than) (\<lambda>(r, dst). (length (r_src r), leftoverRest r)))"
    by (intro wf_inv_image wf_lex_prod wf_less_than)
next
  fix r :: reader and dst :: "byte list" and x y xa ya xb
  assume "(x, y) = Read r (64 * 1024)" "(xa, ya) = y" "xb = (if 0 < length xa then dst @ xa else dst)"
    "ya \<noteq> Some EOF" "ya = None"
  then have "Read r (64 * 1024) = (x, xa, None)" by simp
  from Read_progress [OF _ this]
  show "((x, xb), (r, dst)) \<in> inv_image (less_than <*lex*> less_than) (\<lambda>(r, dst). (length (r_src r), leftoverRest r))"
    by auto
qed

declare DecompressLoop.simps [simp del]

definition DecompressStream :: "byte list \<Rightarrow> byte list \<Rightarrow> byte list \<times> error option" where
  "DecompressStream src dst = DecompressLoop (NewReader src) dst"

definition goodBlock :: "byte list \<Rightarrow> bool" where
  "goodBlock b \<longleftrightarrow> b \<noteq> [] \<and> length b \<le> defaultBlockSize \<and> length (compressed b) \<le> maxBlockSize"

lemma ReadFull_append: "ReadFull (xs @ rest) (length xs) = (Inr xs, rest)"
  by (simp add: ReadFull_def)

lemma readBlock_record:
  assumes "goodBlock b"
  shows "readBlock (blockRecord b @ rest) = (BlockData b, rest)"
proof -
  define c where "c = compressed b"
  define n where "n = (word_of_nat (length c) :: 32 word)"
  from assms have g: "b \<noteq> []" "length b \<le> defaultBlockSize" "length c \<le> maxBlockSize"
    by (simp_all add: goodBlock_def c_def)
  have small: "length b < 2 ^ 32" using g(2) by (simp add: defaultBlockSize_def)
  from compressBlock_compressed [OF g(1) small, of "\<lambda>i. 0"]
  have cne: "c \<noteq> []"
    and dec: "\<forall>D. length b \<le> length D \<longrightarrow>
                 (\<exists>D'. decompressBlock c D = (length b, None, D')
                        \<and> take (length b) D' = b \<and> length D' = length D)"
    unfolding c_def by blast+
  have pos: "0 < length c" using cne by simp
  note w = size_word_facts [OF pos g(3), folded n_def]
  from dec g(2) obtain D' where D': "decompressBlock c (replicate defaultBlockSize 0) = (length b, None, D')"
    "take (length b) D' = b"
    by (metis length_replicate)
  have rf1: "ReadFull (blockRecord b @ rest) 4 = (Inr (PutUint32 n), c @ rest)"
    using ReadFull_append [of "PutUint32 n" "c @ rest"]
    by (simp add: blockRecord_def c_def n_def)
  have rf2: "ReadFull (c @ rest) (unat n) = (Inr c, rest)"
    using ReadFull_append [of c rest] w(1) by simp
  show ?thesis
    unfolding readBlock_def rf1
    using w(2,3,4) rf2 D' by (simp add: Uint32_PutUint32 Let_def)
qed

lemma readBlock_endMark: "readBlock (PutUint32 endMark @ trailing) = (BlockEnd, trailing)"
  using ReadFull_append [of "PutUint32 endMark" trailing]
  by (simp add: readBlock_def Uint32_PutUint32 endMark_def)

definition frameHeader :: "byte list" where
  "frameHeader = [0x04, 0x22, 0x4D, 0x18, 0x60, 0x70, 0x73]"

definition delivers :: "reader \<Rightarrow> byte list \<Rightarrow> bool" where
  "delivers r pend \<longleftrightarrow>
     (if r_eof r then pend = []
      else \<exists>bs trailing. (\<forall>b \<in> set bs. goodBlock b)
             \<and> r_src r = (if r_headerRead r then [] else frameHeader)
                           @ concat (map blockRecord bs) @ PutUint32 endMark @ trailing
             \<and> pend = drop (r_leftoverPos r) (r_leftover r) @ concat bs)"

lemma deliversI:
  assumes "\<not> r_eof r" "\<forall>b \<in> set bs. goodBlock b"
    and "r_src r = (if r_headerRead r then [] else frameHeader)
                           @ concat (map blockRecord bs) @ PutUint32 endMark @ trailing"
    and "pend = drop (r_leftoverPos r) (r_leftover r) @ concat bs"
  shows "delivers r pend"
  using assms unfolding delivers_def by auto

lemma readLoop_delivers:
  assumes "\<forall>b \<in> set bs. goodBlock b"
    and "r_src r = concat (map blockRecord bs) @ PutUint32 endMark @ trailing"
    and "\<not> r_eof r" "r_headerRead r" "length (r_leftover r) \<le> r_leftoverPos r"
  shows "\<exists>r' d pend'. readLoop r plen out = (r', out @ d, None) \<and> concat bs = d @ pend'
           \<and> delivers r' pend'"
  using assms
proof (induction bs arbitrary: r out)
  case Nil
  show ?case
  proof (cases "length out < plen")
    case False
    then have "readLoop r plen out = (r, out, None)" by (subst readLoop.simps) simp
    moreover have "delivers r []"
      using Nil.prems by (intro deliversI [where bs = "[]" and trailing = trailing]) simp_all
    ultimately show ?thesis by auto
  next
    case True
    have "readLoop r plen out = (r\<lparr>r_src := trailing, r_eof := True\<rparr>, out, None)"
      using True Nil.prems readBlock_endMark [of trailing]
      by (subst readLoop.simps) simp
    moreover have "delivers (r\<lparr>r_src := trailing, r_eof := True\<rparr>) []"
      by (simp add: delivers_def)
    ultimately show ?thesis by auto
  qed
next
  case (Cons b bs)
  define rest where "rest = concat (map blockRecord bs) @ PutUint32 endMark @ trailing"
  have src: "r_src r = blockRecord b @ rest" using Cons.prems(2) by (simp add: rest_def)
  have gb: "goodBlock b" using Cons.prems(1) by simp
  show ?case
  proof (cases "length out < plen")
    case False
    then have "readLoop r plen out = (r, out, None)" by (subst readLoop.simps) simp
    moreover have "delivers r (concat (b # bs))"
      using Cons.prems by (intro deliversI [where bs = "b # bs" and trailing = trailing]) simp_all
    ultimately show ?thesis by auto
  next
    case True
    show ?thesis
    proof (cases "length b > plen - length out")
      case big: True
      define r' where "r' = r\<lparr>r_src := rest, r_leftover := drop (plen - length out) b, r_leftoverPos := 0\<rparr>"
      have "readLoop r plen out = (r', out @ take (plen - length out) b, None)"
        using True Cons.prems(3) big readBlock_record [OF gb, of rest]
        by (subst readLoop.simps) (simp add: src Let_def r'_def)
      moreover have "delivers r' (drop (plen - length out) b @ concat bs)"
        using Cons.prems
        by (intro deliversI [where bs = bs and trailing = trailing]) (simp_all add: r'_def rest_def)
      ultimately show ?thesis
        by (intro exI [of _ r'] exI [of _ "take (plen - length out) b"]
              exI [of _ "drop (plen - length out) b @ concat bs"]) simp
    next
      case small: False
      have step: "readLoop r plen out = readLoop (r\<lparr>r_src := rest\<rparr>) plen (out @ b)"
        using True Cons.prems(3) small readBlock_record [OF gb, of rest]
        by (subst readLoop.simps) (simp add: src Let_def)
      from Cons.IH [of "r\<lparr>r_src := rest\<rparr>" "out @ b"] Cons.prems
      obtain r' d pend' where "readLoop (r\<lparr>r_src := rest\<rparr>) plen (out @ b) = (r', (out @ b) @ d, None)"
        "concat bs = d @ pend'" "delivers r' pend'"
        by (auto simp: rest_def)
      with step show ?thesis
        by (intro exI [of _ r'] exI [of _ "b @ d"] exI [of _ pend']) simp
    qed
  qed
qed

lemma readBody_delivers:
  assumes d: "delivers r pend" and ne: "\<not> r_eof r" and hr: "r_headerRead r"
  shows "\<exists>r' d pend'. readBody r plen = (r', d, None) \<and> pend = d @ pend' \<and> delivers r' pend'"
proof -
  from d ne hr obtain bs trailing where
    bs: "\<forall>b \<in> set bs. goodBlock b"
      "r_src r = concat (map blockRecord bs) @ PutUint32 endMark @ trailing"
      "pend = drop (r_leftoverPos r) (r_leftover r) @ concat bs"
    unfolding delivers_def by auto
  show ?thesis
  proof (cases "r_leftoverPos r < length (r_leftover r)")
    case False
    then have dr: "length (r_leftover r) \<le> r_leftoverPos r" by simp
    from readLoop_delivers [OF bs(1,2) ne hr dr, of plen "[]"]
    obtain r' d pend' where "readLoop r plen [] = (r', d, None)" "concat bs = d @ pend'"
      "delivers r' pend'" by auto
    moreover have "readBody r plen = readLoop r plen []" using False by (simp add: readBody_def)
    moreover have "pend = concat bs" using bs(3) dr by simp
    ultimately show ?thesis by auto
  next
    case True
    define lo where "lo = drop (r_leftoverPos r) (r_leftover r)"
    define toCopy where "toCopy = (if length (r_leftover r) - r_leftoverPos r > plen then plen
                       else length (r_leftover r) - r_leftoverPos r)"
    define out where "out = slice (r_leftover r) (r_leftoverPos r) (r_leftoverPos r + toCopy)"
    define r1 where "r1 = r\<lparr>r_leftoverPos := r_leftoverPos r + toCopy\<rparr>"
    define r2 where "r2 = (if r_leftoverPos r1 \<ge> length (r_leftover r1)
                   then r1\<lparr>r_leftover := [], r_leftoverPos := 0\<rparr> else r1)"
    have unf: "readBody r plen = (if toCopy \<ge> plen then (r2, out, None) else readLoop r2 plen out)"
      using True unfolding readBody_def Let_def toCopy_def out_def r1_def r2_def by simp
    have out: "out = take toCopy lo" by (simp add: out_def slice_def lo_def)
    have llo: "length lo = length (r_leftover r) - r_leftoverPos r" by (simp add: lo_def)
    have tcl: "toCopy \<le> length lo" by (simp add: toCopy_def llo)
    have r2s: "r_src r2 = r_src r" "\<not> r_eof r2" "r_headerRead r2"
      using ne hr by (simp_all add: r2_def r1_def)
    have r2l: "drop (r_leftoverPos r2) (r_leftover r2) = drop toCopy lo"
      by (auto simp: r2_def r1_def lo_def add.commute)
    show ?thesis
    proof (cases "toCopy \<ge> plen")
      case big: True
      have "delivers r2 (drop toCopy lo @ concat bs)"
        using bs(1,2) r2s r2l by (intro deliversI [where bs = bs and trailing = trailing]) simp_all
      moreover have "pend = out @ drop toCopy lo @ concat bs"
        using bs(3) by (simp add: out lo_def [symmetric])
      ultimately show ?thesis using unf big by auto
    next
      case small: False
      then have tc: "toCopy = length lo" by (auto simp: toCopy_def llo split: if_splits)
      then have outlo: "out = lo" by (simp add: out)
      have dr: "length (r_leftover r2) \<le> r_leftoverPos r2"
        using tc by (simp add: r2_def r1_def llo)
      from readLoop_delivers [OF bs(1) _ r2s(2,3) dr, of trailing plen out] bs(2) r2s(1)
      obtain r' d pend' where "readLoop r2 plen out = (r', out @ d, None)" "concat bs = d @ pend'"
        "delivers r' pend'" by auto
      moreover have "pend = (out @ d) @ pend'"
        using bs(3) calculation(2) by (simp add: outlo lo_def)
      ultimately show ?thesis using unf small by auto
    qed
  qed
qed

lemma Uint32_magic: "Uint32 [0x04, 0x22, 0x4D, 0x18] = magic"
  by (simp add: Uint32_def magic_def)

lemma ReadFrameHeader_frameHeader:
  "\<exists>header. ReadFrameHeader (frameHeader @ rest) = (Inr header, rest) \<and> checkHeader header = None"
proof -
  have "length frameHeader = 7" by (simp add: frameHeader_def)
  then have rf: "ReadFull (frameHeader @ rest) 7 = (Inr frameHeader, rest)"
    using ReadFull_append [of frameHeader rest] by simp
  show ?thesis
    unfolding ReadFrameHeader_def rf
    by (simp add: frameHeader_def Uint32_magic blockMaxSizeOf_def checkHeader_def Let_def)
qed

lemma Read_delivers:
  assumes d: "delivers r pend" and ne: "\<not> r_eof r"
  shows "\<exists>r' d pend'. Read r plen = (r', d, None) \<and> pend = d @ pend' \<and> delivers r' pend'"
proof (cases "r_headerRead r")
  case True
  with readBody_delivers [OF d ne True, of plen] ne show ?thesis by (simp add: Read_def)
next
  case False
  from d ne False obtain bs trailing where
    bs: "\<forall>b \<in> set bs. goodBlock b"
      "r_src r = frameHeader @ concat (map blockRecord bs) @ PutUint32 endMark @ trailing"
      "pend = drop (r_leftoverPos r) (r_leftover r) @ concat bs"
    unfolding delivers_def by auto
  define rest where "rest = concat (map blockRecord bs) @ PutUint32 endMark @ trailing"
  define r1 where "r1 = r\<lparr>r_src := rest, r_headerRead := True\<rparr>"
  from ReadFrameHeader_frameHeader [of rest] obtain header where
    h: "ReadFrameHeader (frameHeader @ rest) = (Inr header, rest)" "checkHeader header = None"
    by blast
  have rd: "Read r plen = readBody r1 plen"
    using ne False h bs(2) by (simp add: Read_def rest_def [symmetric] r1_def)
  have "delivers r1 pend"
    using bs(1,3) ne by (intro deliversI [where bs = bs and trailing = trailing]) (simp_all add: r1_def rest_def)
  from readBody_delivers [OF this, of plen] ne rd show ?thesis by (simp add: r1_def)
qed

lemma DecompressLoop_delivers:
  "delivers r pend \<Longrightarrow> DecompressLoop r dst = (dst @ pend, None)"
proof (induction r dst arbitrary: pend rule: DecompressLoop.induct)
  case (1 r dst)
  show ?case
  proof (cases "r_eof r")
    case True
    then have "Read r (64 * 1024) = (r, [], Some EOF)" by (simp add: Read_def)
    moreover from True "1.prems" have "pend = []" by (simp add: delivers_def)
    ultimately show ?thesis by (subst DecompressLoop.simps) simp
  next
    case False
    from Read_delivers [OF "1.prems" False, of "64 * 1024"]
    obtain r' d pend' where rd: "Read r (64 * 1024) = (r', d, None)" "pend = d @ pend'"
      "delivers r' pend'" by blast
    have "DecompressLoop r' (if 0 < length d then dst @ d else dst)
        = ((if 0 < length d then dst @ d else dst) @ pend', None)"
      by (rule "1.IH" [OF rd(1) [symmetric] refl refl _ refl rd(3)]) simp
    moreover have "DecompressLoop r dst = DecompressLoop r' (if 0 < length d then dst @ d else dst)"
      using rd(1) by (subst DecompressLoop.simps) (simp add: Let_def)
    ultimately show ?thesis using rd(2) by auto
  qed
qed

lemma frameHeader_bytes:
  "PutUint32 magic @ [flgByte, bdType, getHeaderChecksum [flgByte, bdType]] = frameHeader"
  by code_simp

lemma WriteFrameHeader_eq: "WriteFrameHeader w = w @ frameHeader"
  by (simp only: WriteFrameHeader_def frameHeader_bytes)

definition flushed :: "writer \<Rightarrow> byte list" where
  "flushed w = (if w_headerWritten w then w_dst w else WriteFrameHeader (w_dst w))"

lemma Write_ok:
  "\<exists>hashTable'. Write w p =
      (w\<lparr>w_dst := flushed w @ concat (map blockRecord (blocksOf p)),
         w_hashTable := hashTable', w_headerWritten := True\<rparr>, length p, None)"
proof (cases "w_headerWritten w")
  case True
  from writeLoop_ok [of w p 0] obtain h where
    "writeLoop w p 0 = (w\<lparr>w_dst := w_dst w @ concat (map blockRecord (blocksOf p)), w_hashTable := h\<rparr>,
       0 + length p, None)" by blast
  with True show ?thesis
    by (intro exI [of _ h]) (simp add: Write_def flushed_def)
next
  case False
  define w1 where "w1 = w\<lparr>w_dst := WriteFrameHeader (w_dst w), w_headerWritten := True\<rparr>"
  from writeLoop_ok [of w1 p 0] obtain h where
    "writeLoop w1 p 0 = (w1\<lparr>w_dst := w_dst w1 @ concat (map blockRecord (blocksOf p)), w_hashTable := h\<rparr>,
       0 + length p, None)" by blast
  with False show ?thesis
    by (intro exI [of _ h]) (simp add: Write_def flushed_def w1_def)
qed

lemma compressLoop_ok:
  "\<exists>w'. compressLoop w src = (w', None)
     \<and> flushed w' = flushed w @ concat (map blockRecord (concat (map blocksOf src)))"
proof (induction src arbitrary: w)
  case Nil
  then show ?case by simp
next
  case (Cons buf src)
  show ?case
  proof (cases "length buf > 0")
    case False
    then have "blocksOf buf = []" by (simp add: blocksOf.simps)
    with False Cons.IH [of w] show ?thesis by simp
  next
    case True
    from Write_ok [of w buf] obtain h where
      wr: "Write w buf = (w\<lparr>w_dst := flushed w @ concat (map blockRecord (blocksOf buf)),
         w_hashTable := h, w_headerWritten := True\<rparr>, length buf, None)" by blast
    define w1 where "w1 = w\<lparr>w_dst := flushed w @ concat (map blockRecord (blocksOf buf)),
         w_hashTable := h, w_headerWritten := True\<rparr>"
    from Cons.IH [of w1] obtain w' where
      w': "compressLoop w1 src = (w', None)"
        "flushed w' = flushed w1 @ concat (map blockRecord (concat (map blocksOf src)))" by blast
    have "flushed w1 = flushed w @ concat (map blockRecord (blocksOf buf))"
      by (simp add: flushed_def w1_def)
    with w' wr True show ?thesis by (simp add: w1_def)
  qed
qed

lemma CompressStream_ok:
  "CompressStream src dst =
     (dst @ frameHeader @ concat (map blockRecord (concat (map blocksOf src))) @ PutUint32 endMark,
      None)"
proof -
  from compressLoop_ok [of "NewWriter dst" src] obtain w' where
    w': "compressLoop (NewWriter dst) src = (w', None)"
      "flushed w' = flushed (NewWriter dst) @ concat (map blockRecord (concat (map blocksOf src)))"
    by blast
  have "flushed (NewWriter dst) = dst @ frameHeader"
    by (simp add: flushed_def NewWriter_def WriteFrameHeader_eq)
  moreover have "w_dst (Close w') = flushed w' @ PutUint32 endMark"
    by (simp add: Close_def flushed_def WriteFrameEndMark_def Let_def)
  ultimately show ?thesis using w' by (simp add: CompressStream_def)
qed

lemma length_blocksOf_le_length: "b \<in> set (blocksOf p) \<Longrightarrow> length b \<le> length p"
proof (induction p rule: blocksOf.induct)
  case (1 p)
  show ?case
  proof (cases "p = []")
    case True
    with "1.prems" show ?thesis by (simp add: blocksOf.simps)
  next
    case False
    with "1.prems" have "b = take defaultBlockSize p \<or> b \<in> set (blocksOf (drop defaultBlockSize p))"
      by (subst (asm) blocksOf.simps) simp
    with False "1.IH" show ?thesis by auto
  qed
qed

lemma goodBlock_small:
  assumes "b \<noteq> []" "length b + length b div 255 + 2 \<le> maxBlockSize"
  shows "goodBlock b"
proof -
  have small: "length b < 2 ^ 32" using assms(2) by (simp add: maxBlockSize_def)
  from compressBlock_compressed [OF assms(1) small, of "\<lambda>i. 0"]
  have "length (compressed b) \<le> length b + length b div 255 + 2" by blast
  with assms show ?thesis by (simp add: goodBlock_def defaultBlockSize_def maxBlockSize_def)
qed

lemma DecompressStream_frame:
  assumes "\<forall>b \<in> set bs. goodBlock b"
  shows "DecompressStream (frameHeader @ concat (map blockRecord bs) @ PutUint32 endMark @ trailing) dst
           = (dst @ concat bs, None)"
  unfolding DecompressStream_def
proof (rule DecompressLoop_delivers)
  show "delivers (NewReader (frameHeader @ concat (map blockRecord bs) @ PutUint32 endMark @ trailing))
          (concat bs)"
    using assms
    by (intro deliversI [where bs = bs and trailing = trailing]) (simp_all add: NewReader_def)
qed

lemma concat_concat_blocksOf: "concat (concat (map blocksOf src)) = concat src"
  by (induction src) (simp_all add: concat_blocksOf)

lemma roundtrip_chunks:
  assumes "\<forall>c \<in> set src. length c \<le> 64 * 1024"
  shows "\<exists>frame. CompressStream src [] = (frame, None)
           \<and> DecompressStream frame dst = (dst @ concat src, None)"
proof -
  define bs where "bs = concat (map blocksOf src)"
  have good: "\<forall>b \<in> set bs. goodBlock b"
  proof
    fix b assume "b \<in> set bs"
    then obtain c where c: "c \<in> set src" "b \<in> set (blocksOf c)" by (auto simp: bs_def)
    from c(2) have ne: "b \<noteq> []" using length_blocksOf_le by blast
    from c assms have "length b \<le> 64 * 1024"
      using length_blocksOf_le_length by fastforce
    then have "length b + length b div 255 + 2 \<le> maxBlockSize"
      by (simp add: maxBlockSize_def)
    with ne show "goodBlock b" by (rule goodBlock_small)
  qed
  have cc: "concat bs = concat src"
    by (simp add: bs_def concat_concat_blocksOf)
  from DecompressStream_frame [OF good, of "[]" dst] CompressStream_ok [of src "[]"] cc
  show ?thesis by (simp add: bs_def)
qed

section \<open>Particular inputs and loop states\<close>

lemma PutUint32_magic: "PutUint32 magic = [0x04, 0x22, 0x4D, 0x18]"
  by code_simp

lemma xxHash32_flg_bd: "xxHash32 0 [0x60, 0x70] = 0x789F73AA"
  by code_simp

lemma copyLoop_periodic:
  assumes "ref < dstPos" "dstPos + matchLen \<le> length dst"
  shows "\<exists>dst'. copyLoop dst ref dstPos matchLen 0 = (dst', dstPos + matchLen)
           \<and> length dst' = length dst \<and> take dstPos dst' = take dstPos dst
           \<and> (\<forall>j < matchLen. dst' ! (dstPos + j) = dst ! (ref + j mod (dstPos - ref)))"
proof -
  define off where "off = dstPos - ref"
  have off: "0 < off" "ref + off = dstPos" using assms(1) by (simp_all add: off_def)
  from copyLoop_spec [of ref 0 dstPos matchLen dst] assms
  obtain D where D: "copyLoop dst ref dstPos matchLen 0 = (D, dstPos + matchLen)"
    "length D = length dst" "take dstPos D = take dstPos dst"
    "\<forall>j. j < matchLen \<longrightarrow> D ! (dstPos + j) = D ! (ref + j)"
    by auto
  have pre: "\<And>k. k < dstPos \<Longrightarrow> D ! k = dst ! k"
    using D(3) by (metis nth_take)
  have "j < matchLen \<Longrightarrow> D ! (dstPos + j) = dst ! (ref + j mod off)" for j
  proof (induction j rule: less_induct)
    case (less j)
    have r: "D ! (dstPos + j) = D ! (ref + j)" using D(4) less.prems by blast
    show ?case
    proof (cases "j < off")
      case True
      then have "ref + j < dstPos" using off(2) by simp
      with r pre True show ?thesis by simp
    next
      case False
      then have j: "j = off + (j - off)" by simp
      have lt: "j - off < j" using False off(1) by simp
      have "ref + j = dstPos + (j - off)" using False off(2) by simp
      with r have "D ! (dstPos + j) = D ! (dstPos + (j - off))" by simp
      also have "\<dots> = dst ! (ref + (j - off) mod off)"
        using less.IH [OF lt] less.prems by simp
      also have "(j - off) mod off = j mod off"
        using False by (simp add: le_mod_geq)
      finally show ?thesis .
    qed
  qed
  with D show ?thesis unfolding off_def by blast
qed

lemma encLength_small: "r < 255 \<Longrightarrow> encLength r = [word_of_nat r]"
  by (simp add: encLength.simps)

lemma decode_run:
  assumes "length dst \<ge> 260"
  shows "\<exists>dst'. decompressBlock [0x1F, 0x61, 0x01, 0x00, 0xF0] dst = (260, None, dst')
           \<and> take 260 dst' = replicate 260 0x61"
proof -
  define C :: "byte list" where "C = [0x1F, 0x61, 0x01, 0x00, 0xF0]"
  define st where "st = \<lparr>d_dst = dst, d_srcPos = 0, d_dstPos = 0\<rparr>"
  have enc: "encSequence [0x61] 1 259 = C"
    by (simp add: encSequence_def encLiterals_def matchToken_def literalToken_def
        minMatchLength_def encLength_small C_def)
  have "\<exists>D'. decodeStep C st =
             DNext \<lparr>d_dst = D', d_srcPos = length ([] :: byte list) + length (encSequence [0x61] 1 259),
                    d_dstPos = d_dstPos st + length [0x61 :: byte] + 259\<rparr>
        \<and> length D' = length (d_dst st)
        \<and> take (d_dstPos st + length [0x61 :: byte]) D' = take (d_dstPos st) (d_dst st) @ [0x61]
        \<and> (\<forall>k < 259. D' ! (d_dstPos st + length [0x61 :: byte] + k)
               = D' ! (d_dstPos st + length [0x61 :: byte] - 1 + k))"
  proof (rule decodeStep_seq [where post = "[]"])
    show "C = [] @ encSequence [0x61] 1 259 @ []" by (simp only: enc append_Nil append_Nil2)
    show "d_srcPos st = length ([] :: byte list)" by (simp add: st_def)
    show "minMatchLength \<le> 259" by (simp add: minMatchLength_def)
    show "0 < (1 :: nat)" by simp
    show "1 \<le> d_dstPos st + length [0x61 :: byte]" by simp
    show "(1 :: nat) < 65536" by simp
    show "d_dstPos st + length [0x61 :: byte] + 259 \<le> length (d_dst st)"
      using assms by (simp add: st_def)
  qed
  then obtain D' where raw: "decodeStep C st =
             DNext \<lparr>d_dst = D', d_srcPos = length ([] :: byte list) + length (encSequence [0x61] 1 259),
                    d_dstPos = d_dstPos st + length [0x61 :: byte] + 259\<rparr>"
        "length D' = length (d_dst st)"
        "take (d_dstPos st + length [0x61 :: byte]) D' = take (d_dstPos st) (d_dst st) @ [0x61]"
        "\<forall>k < 259. D' ! (d_dstPos st + length [0x61 :: byte] + k)
               = D' ! (d_dstPos st + length [0x61 :: byte] - 1 + k)"
    by blast
  have l5: "length (encSequence [0x61] 1 259) = 5" unfolding enc by (simp add: C_def)
  have D': "decodeStep C st = DNext \<lparr>d_dst = D', d_srcPos = 5, d_dstPos = 260\<rparr>"
    "length D' = length dst" "take 1 D' = [0x61]" "\<forall>k < 259. D' ! (1 + k) = D' ! k"
    using raw unfolding l5 by (simp_all add: st_def)
  have all: "i < 260 \<Longrightarrow> D' ! i = 0x61" for i
  proof (induction i)
    case 0
    from D'(3) have "take 1 D' ! 0 = 0x61" by simp
    then show ?case by simp
  next
    case (Suc i)
    then have "D' ! (1 + i) = D' ! i" using D'(4) by simp
    with Suc show ?case by simp
  qed
  have "take 260 D' = replicate 260 0x61"
    using all D'(2) assms by (intro nth_equalityI) simp_all
  moreover have "decodeLoop C st = (\<lparr>d_dst = D', d_srcPos = 5, d_dstPos = 260\<rparr>, None)"
    using D'(1)
    by (subst decodeLoop.simps, simp add: st_def C_def, subst decodeLoop.simps, simp add: C_def)
  ultimately show ?thesis
    by (simp add: decompressBlock_def st_def [symmetric] C_def [symmetric])
qed

lemma matchLoop_replicate:
  assumes "m \<le> maxLen" "srcPos + maxLen \<le> n" "ref \<le> srcPos"
  shows "matchLoop (replicate n x) srcPos ref maxLen m = Inr maxLen"
proof -
  from matchLoop_spec [of m maxLen srcPos "replicate n x" ref] assms
  obtain M where M: "matchLoop (replicate n x) srcPos ref maxLen m = Inr M" "M \<le> maxLen"
    "M < maxLen \<longrightarrow> replicate n x ! (srcPos + M) \<noteq> replicate n x ! (ref + M)"
    by auto
  have "\<not> M < maxLen"
  proof
    assume lt: "M < maxLen"
    with assms have "srcPos + M < n" "ref + M < n" by simp_all
    with M(3) lt show False by simp
  qed
  with M show ?thesis by simp
qed

lemma Uint32_zeros: "4 \<le> n \<Longrightarrow> Uint32 (replicate n 0) = 0"
  by (simp add: Uint32_def)

definition zeroTable :: "nat \<Rightarrow> hashTable" where
  "zeroTable p = (\<lambda>i. sentinel)(0 := word_of_nat p)"

lemma findMatch_zeros_first:
  assumes "4 \<le> n"
  shows "findMatch (replicate n 0) (\<lambda>i. sentinel) 0 = Inr (zeroTable 0, None)"
  using assms
  by (simp add: findMatch_def Uint32_zeros hashSequence_def Let_def zeroTable_def)

lemma findMatch_zeros_second:
  assumes "5 \<le> n" "n \<le> 65536"
  shows "findMatch (replicate n 0) (zeroTable 0) 1 = Inr (zeroTable 1, Some (0, n - 1))"
proof -
  have ml: "matchLoop (replicate n 0) 1 0 (n - 1) 0 = Inr (n - 1)"
    using assms by (intro matchLoop_replicate) simp_all
  have mn: "min (n - Suc 0) maxMatchLength = n - 1"
    using assms by (simp add: maxMatchLength_def)
  show ?thesis
    using assms ml
    by (simp add: findMatch_def Uint32_zeros hashSequence_def Let_def zeroTable_def
        sentinel_def maxOffset_def mn minMatchLength_def)
qed

lemma scanLoop_zeros:
  assumes "5 \<le> n" "n \<le> 65536"
  shows "scanLoop (replicate n 0) \<lparr>c_hashTable = (\<lambda>i. sentinel), c_dst = dst, c_dstPos = 0,
                              c_anchor = 0, c_srcPos = 0\<rparr>
         = bindE (emitSequence (replicate n 0) dst 0 0 1 0 (n - 1)) (\<lambda>(dst', dstPos').
             Inr \<lparr>c_hashTable = zeroTable 1, c_dst = dst', c_dstPos = dstPos',
                  c_anchor = n, c_srcPos = n\<rparr>)"
proof -
  define src where "src = replicate n (0 :: byte)"
  define st0 where "st0 = \<lparr>c_hashTable = (\<lambda>i. sentinel), c_dst = dst, c_dstPos = 0,
                              c_anchor = 0, c_srcPos = (0::nat)\<rparr>"
  define st1 where "st1 = \<lparr>c_hashTable = zeroTable 0, c_dst = dst, c_dstPos = 0,
                              c_anchor = 0, c_srcPos = (1::nat)\<rparr>"
  have g0: "scanGuard src st0" using assms by (simp add: scanGuard_def st0_def src_def minMatchLength_def)
  have g1: "scanGuard src st1" using assms by (simp add: scanGuard_def st1_def src_def minMatchLength_def)
  have s0: "scanStep src st0 = Inr st1"
    using findMatch_zeros_first [of n] assms
    by (simp add: scanStep_def st0_def st1_def src_def)
  have l0: "scanLoop src st0 = scanLoop src st1"
    using g0 s0 by (subst scanLoop.simps) simp
  show ?thesis
  proof (cases "emitSequence src dst 0 0 1 0 (n - 1)")
    case (Inl e)
    then have "scanStep src st1 = Inl e"
      using findMatch_zeros_second [OF assms]
      by (simp add: scanStep_def st1_def src_def)
    then have "scanLoop src st1 = Inl e"
      using g1 by (subst scanLoop.simps) simp
    with l0 Inl show ?thesis by (simp add: src_def st0_def)
  next
    case (Inr res)
    obtain dst' dstPos' where res: "res = (dst', dstPos')" by (cases res)
    define st2 where "st2 = \<lparr>c_hashTable = zeroTable 1, c_dst = dst', c_dstPos = dstPos',
                  c_anchor = n, c_srcPos = n\<rparr>"
    have "scanStep src st1 = Inr st2"
      using findMatch_zeros_second [OF assms] Inr res assms
      by (simp add: scanStep_def st1_def src_def st2_def)
    moreover have "\<not> scanGuard src st2"
      by (simp add: scanGuard_def st2_def src_def minMatchLength_def)
    then have "scanLoop src st2 = Inr st2" by (subst scanLoop.simps) simp
    ultimately have "scanLoop src st1 = Inr st2"
      using g1 by (subst scanLoop.simps) simp
    with l0 Inr res show ?thesis by (simp add: src_def st0_def st2_def)
  qed
qed

lemma compressBlock_zeros:
  assumes "5 \<le> n" "n \<le> 65536"
  shows "compressBlock (replicate n 0) dst hashTable
         = bindE (emitSequence (replicate n 0) dst 0 0 1 0 (n - 1)) (\<lambda>(dst', dstPos').
             Inr (dstPos', dst', zeroTable 1))"
proof (cases "emitSequence (replicate n 0) dst 0 0 1 0 (n - 1)")
  case (Inl e)
  with scanLoop_zeros [OF assms, of dst] assms show ?thesis
    by (simp add: compressBlock_def)
next
  case (Inr res)
  obtain dst' dstPos' where res: "res = (dst', dstPos')" by (cases res)
  with Inr scanLoop_zeros [OF assms, of dst] assms show ?thesis
    by (simp add: compressBlock_def)
qed

lemma compressBlock_zeros256:
  assumes "5 \<le> length dst"
  shows "compressBlock (replicate 256 0) dst hashTable
           = Inr (5, [0x1F, 0x00, 0x01, 0x00, 0xEC] @ drop 5 dst, zeroTable 1)"
proof -
  have sl: "slice (replicate 256 0) 0 (Suc 0) = [0 :: byte]"
    by (simp add: slice_def)
  have enc: "encSequence [0] (Suc 0) 255 = [0x1F, 0x00, 0x01, 0x00, 0xEC]"
    by (simp add: encSequence_def encLiterals_def matchToken_def literalToken_def
        minMatchLength_def encLength.simps)
  have "emitSequence (replicate 256 0) dst 0 0 1 0 255 =
     Inr (copyInto dst 0 (encSequence (slice (replicate 256 0) 0 1) (1 - unat (0 :: 32 word)) 255),
          0 + length (encSequence (slice (replicate 256 0) 0 1) (1 - unat (0 :: 32 word)) 255))"
    using assms by (intro emitSequence_ok) (simp_all add: sl enc)
  moreover have l5: "length [0x1F, 0x00, 0x01, 0x00, 0xEC :: byte] = 5" by simp
  moreover have "copyInto dst 0 [0x1F, 0x00, 0x01, 0x00, 0xEC]
      = [0x1F, 0x00, 0x01, 0x00, 0xEC] @ drop 5 dst"
    using assms by (simp only: copyInto_def l5) simp
  ultimately have "emitSequence (replicate 256 0) dst 0 0 1 0 255
      = Inr ([0x1F, 0x00, 0x01, 0x00, 0xEC] @ drop 5 dst, 5)"
    by (simp only: sl enc One_nat_def unat_0 diff_zero add_0)
  with compressBlock_zeros [of 256 dst hashTable] show ?thesis by simp
qed



lemma blocksOf_small: "p \<noteq> [] \<Longrightarrow> length p \<le> defaultBlockSize \<Longrightarrow> blocksOf p = [p]"
  by (subst blocksOf.simps, simp, subst blocksOf.simps, simp)

lemma compressed_zeros256: "compressed (replicate 256 0) = [0x1F, 0x00, 0x01, 0x00, 0xEC]"
  using compressBlock_zeros256 [of "replicate (worstCase 256) 0" "\<lambda>i. 0"]
  by (simp add: compressed_def worstCase_def)

lemma PutUint32_5: "PutUint32 5 = [5, 0, 0, 0]"
  by (simp add: PutUint32_def)

lemma endMark_bytes: "PutUint32 endMark = [0, 0, 0, 0]"
  by (simp add: PutUint32_def endMark_def)

lemma compressBlock_short:
  assumes "src \<noteq> []" "length src < 4" "length src + 1 \<le> length dst"
  shows "compressBlock src dst hashTable
           = Inr (length src + 1, copyInto dst 0 (literalToken (length src) # src), (\<lambda>i. sentinel))"
proof -
  define st0 where "st0 = \<lparr>c_hashTable = (\<lambda>i. sentinel), c_dst = dst, c_dstPos = 0,
                              c_anchor = 0, c_srcPos = (0::nat)\<rparr>"
  have "\<not> scanGuard src st0" using assms(2) by (simp add: scanGuard_def st0_def minMatchLength_def)
  then have sl: "scanLoop src st0 = Inr st0" by (subst scanLoop.simps) simp
  have sl0: "slice src 0 (length src) = src" by (simp add: slice_def)
  have el: "encLiterals (literalToken (length src)) src = literalToken (length src) # src"
    using assms(2) by (simp add: encLiterals_def)
  have "putLiterals src dst 0 (literalToken (length src)) 0 (length src)
      = Inr (copyInto dst 0 (encLiterals (literalToken (length src)) (slice src 0 (length src))),
             0 + length (encLiterals (literalToken (length src)) (slice src 0 (length src))))"
    using assms(3) by (intro putLiterals_ok) (simp_all add: sl0 el)
  then have pl: "putLiterals src dst 0 (literalToken (length src)) 0 (length src)
      = Inr (copyInto dst 0 (literalToken (length src) # src), length src + 1)"
    by (simp add: sl0 el)
  have "compressBlock src dst hashTable =
      bindE (scanLoop src st0) (\<lambda>st.
        if c_anchor st < length src then
          (let literalLen = length src - c_anchor st;
               token = literalToken literalLen
           in if c_dstPos st + 1 + literalLen > length (c_dst st) then Inl ErrBlockTooLarge
              else
                bindE (putLiterals src (c_dst st) (c_dstPos st) token (c_anchor st) (length src))
                  (\<lambda>(dst', dstPos'). Inr (dstPos', dst', c_hashTable st)))
        else Inr (c_dstPos st, c_dst st, c_hashTable st))"
    using assms(1) unfolding compressBlock_def st0_def by simp
  also have "\<dots> = Inr (length src + 1, copyInto dst 0 (literalToken (length src) # src), (\<lambda>i. sentinel))"
    unfolding sl using assms pl by (simp add: st0_def Let_def)
  finally show ?thesis .
qed

lemma compressed_short:
  assumes "b \<noteq> []" "length b < 4"
  shows "compressed b = literalToken (length b) # b"
proof -
  have "length b + 1 \<le> length (replicate (worstCase (length b)) (0 :: byte))"
    by (simp add: worstCase_def)
  from compressBlock_short [OF assms this, of "\<lambda>i. 0"]
    take_copyInto0 [of "literalToken (length b) # b" "replicate (worstCase (length b)) 0"]
  show ?thesis by (simp add: compressed_def worstCase_def)
qed

lemma blocksOf_10MiB:
  assumes "length p = 10 * 1024 * 1024"
  shows "blocksOf p = [take 4194304 p, take 4194304 (drop 4194304 p), drop 8388608 p]"
proof -
  have d: "defaultBlockSize = 4194304" by (simp add: defaultBlockSize_def)
  have p0: "p \<noteq> []" using assms by auto
  have p1: "drop 4194304 p \<noteq> []" using assms by auto
  have p2: "drop 4194304 (drop 4194304 p) \<noteq> []" using assms by auto
  have l2: "length (drop 4194304 (drop 4194304 p)) \<le> defaultBlockSize" using assms by (simp add: d)
  have "blocksOf p = take 4194304 p # blocksOf (drop 4194304 p)"
    using p0 by (subst blocksOf.simps) (simp add: d)
  also have "blocksOf (drop 4194304 p) = take 4194304 (drop 4194304 p) # blocksOf (drop 4194304 (drop 4194304 p))"
    using p1 by (subst blocksOf.simps) (simp add: d)
  also have "blocksOf (drop 4194304 (drop 4194304 p)) = [drop 4194304 (drop 4194304 p)]"
    using p2 l2 by (rule blocksOf_small)
  finally show ?thesis by simp
qed

text \<open>
  The state at the head of the \<open>n\<close>-th iteration of the sequence loop, if the loop gets
  that far from \<open>st\<close>.
\<close>

fun headState :: "byte list \<Rightarrow> dstate \<Rightarrow> nat \<Rightarrow> dstate option" where
  "headState src st 0 = Some st"
| "headState src st (Suc n) =
     (if d_srcPos st < length src then
        (case decodeStep src st of DNext st' \<Rightarrow> headState src st' n | _ \<Rightarrow> None)
      else None)"

text \<open>
  The offset test of line 298 at the state \<open>st3\<close> reached after the literals of a
  sequence: the two offset bytes are there, and the offset is 0 or exceeds the number of
  bytes decoded so far.
\<close>

definition badOffset :: "byte list \<Rightarrow> dstate \<Rightarrow> bool" where
  "badOffset src st3 \<longleftrightarrow>
     d_srcPos st3 + 2 \<le> length src
     \<and> (unat (Uint16 (drop (d_srcPos st3) src)) = 0
        \<or> unat (Uint16 (drop (d_srcPos st3) src)) > d_dstPos st3)"

lemma int_less_uint: "(int a < uint (x :: 16 word)) = (a < unat x)"
  by (subst uint_nat) (rule of_nat_less_iff)

lemma decodeMatch_Corrupted:
  "decodeMatch src token st3 = DFail stf ErrCorrupted \<longleftrightarrow> badOffset src st3 \<and> stf = st3"
  by (auto simp: decodeMatch_def badOffset_def Let_def int_less_uint
      split: if_splits option.splits prod.splits)

lemma decodeLiterals_not_Corrupted:
  "decodeLiterals src st \<noteq> LFail stf ErrCorrupted"
  by (auto simp: decodeLiterals_def Let_def split: if_splits option.splits prod.splits)

lemma decodeStep_Corrupted:
  "decodeStep src st = DFail stf ErrCorrupted \<longleftrightarrow>
     (\<exists>token. decodeLiterals src st = LMatch token stf \<and> badOffset src stf)"
proof (cases "decodeLiterals src st")
  case (LMatch token st3)
  then show ?thesis by (auto simp: decodeStep_def decodeMatch_Corrupted)
next
  case (LBreak st3)
  then show ?thesis by (simp add: decodeStep_def)
next
  case (LFail st' e)
  with decodeLiterals_not_Corrupted [of src st stf] show ?thesis
    by (auto simp: decodeStep_def)
qed

lemma headState_decodeLoop:
  "headState src st n = Some st1 \<Longrightarrow> decodeLoop src st = decodeLoop src st1"
proof (induction n arbitrary: st)
  case 0
  then show ?case by simp
next
  case (Suc n)
  from Suc.prems obtain st' where s: "d_srcPos st < length src" "decodeStep src st = DNext st'"
    "headState src st' n = Some st1"
    by (auto split: if_splits dstep.splits)
  have "decodeLoop src st = decodeLoop src st'"
    using s(1,2) by (subst decodeLoop.simps) simp
  with Suc.IH [OF s(3)] show ?case by simp
qed

lemma headState_Suc_end:
  "headState src st n = Some st1 \<Longrightarrow> d_srcPos st1 < length src \<Longrightarrow> decodeStep src st1 = DNext st2
     \<Longrightarrow> headState src st (Suc n) = Some st2"
proof (induction n arbitrary: st)
  case 0
  then show ?case by simp
next
  case (Suc n)
  from Suc.prems(1) obtain st' where s: "d_srcPos st < length src" "decodeStep src st = DNext st'"
    "headState src st' n = Some st1"
    by (auto split: if_splits dstep.splits)
  from Suc.IH [OF s(3) Suc.prems(2,3)] s(1,2) show ?case by simp
qed

lemma decodeLoop_Corrupted:
  "decodeLoop src st = (stf, Some ErrCorrupted) \<Longrightarrow>
     \<exists>n st1 token. headState src st n = Some st1 \<and> d_srcPos st1 < length src
        \<and> decodeLiterals src st1 = LMatch token stf \<and> badOffset src stf"
proof (induction src st rule: decodeLoop.induct)
  case (1 src st)
  show ?case
  proof (cases "d_srcPos st < length src")
    case False
    with "1.prems" show ?thesis by (subst (asm) decodeLoop.simps) simp
  next
    case True
    show ?thesis
    proof (cases "decodeStep src st")
      case (DNext st')
      with "1.prems" True have "decodeLoop src st' = (stf, Some ErrCorrupted)"
        by (subst (asm) decodeLoop.simps) simp
      from "1.IH" [OF True DNext this]
      obtain n st1 token where h: "headState src st' n = Some st1" "d_srcPos st1 < length src"
        "decodeLiterals src st1 = LMatch token stf" "badOffset src stf" by blast
      from h(1) True DNext have "headState src st (Suc n) = Some st1" by simp
      with h(2,3,4) show ?thesis by blast
    next
      case (DBreak st')
      with "1.prems" True show ?thesis by (subst (asm) decodeLoop.simps) simp
    next
      case (DFail st' e)
      with "1.prems" True have "st' = stf" "e = ErrCorrupted"
        by (subst (asm) decodeLoop.simps; simp)+
      with DFail obtain token where "decodeLiterals src st = LMatch token stf" "badOffset src stf"
        using decodeStep_Corrupted by blast
      moreover have "headState src st 0 = Some st" by simp
      ultimately show ?thesis using True by blast
    qed
  qed
qed

lemma decodeLoop_badOffset:
  assumes "d_srcPos st1 < length src" "decodeLiterals src st1 = LMatch token st3" "badOffset src st3"
  shows "decodeLoop src st1 = (st3, Some ErrCorrupted)"
proof -
  from assms(2,3) have "decodeStep src st1 = DFail st3 ErrCorrupted"
    using decodeStep_Corrupted by blast
  with assms(1) show ?thesis by (subst decodeLoop.simps) simp
qed

text \<open>
  The state at the head of the \<open>n\<close>-th iteration of the scan loop, if the loop gets that
  far from \<open>st\<close>.
\<close>

fun scanState :: "byte list \<Rightarrow> cstate \<Rightarrow> nat \<Rightarrow> cstate option" where
  "scanState src st 0 = Some st"
| "scanState src st (Suc n) =
     (if scanGuard src st then
        (case scanStep src st of Inr st' \<Rightarrow> scanState src st' n | Inl e \<Rightarrow> None)
      else None)"

lemma tableOk_mono: "tableOk hashTable p \<Longrightarrow> p \<le> q \<Longrightarrow> tableOk hashTable q"
  by (auto simp: tableOk_def intro: less_le_trans)

lemma scanStep_tableOk:
  assumes t: "tableOk (c_hashTable st) (c_srcPos st)"
    and g: "scanGuard src st"
    and small: "length src < 2 ^ 32"
    and s: "scanStep src st = Inr st'"
  shows "tableOk (c_hashTable st') (c_srcPos st')"
proof -
  from g have g': "c_srcPos st + minMatchLength \<le> length src" by (simp add: scanGuard_def)
  from findMatch_inv [OF t g' small]
  obtain hashTable' m where fm: "findMatch src (c_hashTable st) (c_srcPos st) = Inr (hashTable', m)"
    "tableOk hashTable' (c_srcPos st + 1)" by blast
  from s fm(1) have "c_hashTable st' = hashTable'"
    by (auto simp: scanStep_def bindE_Inr_iff split: option.splits prod.splits)
  moreover from s have "c_srcPos st + 1 \<le> c_srcPos st'"
    using scanStep_advances by fastforce
  ultimately show ?thesis using fm(2) tableOk_mono by blast
qed

lemma scanState_tableOk:
  assumes "scanState src st n = Some st'" "tableOk (c_hashTable st) (c_srcPos st)"
    and "length src < 2 ^ 32"
  shows "tableOk (c_hashTable st') (c_srcPos st')"
  using assms
proof (induction n arbitrary: st)
  case 0
  then show ?case by simp
next
  case (Suc n)
  from Suc.prems(1) obtain st1 where s: "scanGuard src st" "scanStep src st = Inr st1"
    "scanState src st1 n = Some st'"
    by (auto split: if_splits sum.splits)
  from scanStep_tableOk [OF Suc.prems(2) s(1) Suc.prems(3) s(2)]
  have "tableOk (c_hashTable st1) (c_srcPos st1)" .
  from Suc.IH [OF s(3) this Suc.prems(3)] show ?case .
qed

lemma checkHeader_rejects:
  "BlocksChecksumFlag header \<or> ContentSizeFlag header \<or> DictIDFlag header
     \<Longrightarrow> checkHeader header \<noteq> None"
  by (auto simp: checkHeader_def)

section \<open>A block that does not compress\<close>

text \<open>
  A block without a repeated 4-byte window gives the scan loop no match, so the whole
  block is written as the literals of one last sequence: the token, the length extension
  and the block itself. For a block of \<open>n \<ge> 15\<close> bytes that is
  \<open>n + 2 + (n - 15) div 255\<close> bytes, which fits the worst-case destination of \<open>Write\<close>
  but, from \<open>n = 4177920\<close> on, not the buffer of \<open>maxBlockSize\<close> bytes that \<open>Read\<close> reads a
  block into.

  \<open>hardBlock\<close> is such a block of 4 MiB: byte \<open>i\<close> carries \<open>i mod 4\<close> in its two high bits
  and, below, the base-64 digit number \<open>i mod 4\<close> of \<open>i div 4\<close>, so that any four
  consecutive bytes spell out \<open>i div 4\<close>.
\<close>

definition tagByte :: "nat \<Rightarrow> nat" where
  "tagByte i = 64 * (i mod 4) + (i div 4) div 64 ^ (i mod 4) mod 64"

lemma tagByte_at: "r < 4 \<Longrightarrow> tagByte (4 * a + r) = 64 * r + (a div 64 ^ r) mod 64"
  by (simp add: tagByte_def)

lemma tagByte_lt: "tagByte i < 256"
proof -
  have "i mod 4 \<le> 3" by simp
  then have "64 * (i mod 4) \<le> 192" by simp
  moreover have "(i div 4) div 64 ^ (i mod 4) mod 64 < 64" by simp
  ultimately show ?thesis unfolding tagByte_def by linarith
qed

lemma tagByte_residue: "tagByte i div 64 = i mod 4"
  by (simp add: tagByte_def)

lemma mod_Suc_cancel:
  assumes "Suc x mod m = Suc y mod m"
  shows "x mod m = y mod m"
proof -
  have h: "u \<le> v \<Longrightarrow> Suc u mod m = Suc v mod m \<Longrightarrow> u mod m = v mod m" for u v :: nat
  proof -
    assume le: "u \<le> v" and eq: "Suc u mod m = Suc v mod m"
    from le have "Suc u \<le> Suc v" by simp
    with eq [symmetric] have "m dvd Suc v - Suc u" by (simp only: mod_eq_dvd_iff_nat)
    then have "m dvd v - u" by simp
    with le have "v mod m = u mod m" by (simp only: mod_eq_dvd_iff_nat)
    then show "u mod m = v mod m" by simp
  qed
  show ?thesis
  proof (cases "x \<le> y")
    case True
    with assms h show ?thesis by blast
  next
    case False
    then have "y \<le> x" by simp
    with assms h [of y x] show ?thesis by simp
  qed
qed

lemma eq_from_div_mod: "x div m = y div m \<Longrightarrow> x mod m = y mod m \<Longrightarrow> x = (y :: nat)"
  by (metis div_mult_mod_eq)

lemma digits_join:
  assumes "x mod m = y mod m" and "x div m mod 64 = y div m mod 64"
  shows "x mod (m * 64) = y mod (m * (64 :: nat))"
  using assms by (simp add: mod_mult2_eq)

lemma digits_top:
  assumes "x mod 262144 = y mod 262144" and "x div 262144 mod 64 = y div 262144 mod 64"
    and "x < 2 ^ 24" and "y < 2 ^ 24"
  shows "x = (y :: nat)"
proof -
  from assms(3) have "x div 262144 < 64" by (simp add: less_mult_imp_div_less)
  moreover from assms(4) have "y div 262144 < 64" by (simp add: less_mult_imp_div_less)
  ultimately have "x div 262144 = y div 262144" using assms(2) by simp
  with assms(1) show ?thesis by (rule eq_from_div_mod [rotated])
qed

lemma window_digits:
  assumes d0: "(a + c0) mod 64 = (b + c0) mod 64"
    and d1: "(a + c1) div 64 mod 64 = (b + c1) div 64 mod 64"
    and d2: "(a + c2) div 4096 mod 64 = (b + c2) div 4096 mod 64"
    and d3: "a div 262144 mod 64 = b div 262144 mod 64"
    and c: "(c0, c1, c2) \<in> {(0, 0, 0), (1, 0, 0), (1, 1, 0), (1, 1, 1 :: nat)}"
    and lt: "a < 2 ^ 24" "b < 2 ^ 24"
  shows "a = b"
proof -
  have m0: "a mod 64 = b mod 64"
    using d0 c by (auto intro: mod_Suc_cancel)
  consider "c1 = 0" "c2 = 0" | "c0 = 1" "c1 = 1" "c2 = 0" | "c0 = 1" "c1 = 1" "c2 = 1"
    using c by auto
  then have m2: "a mod 262144 = b mod 262144"
  proof cases
    case 1
    with d1 d2 have "a div 64 mod 64 = b div 64 mod 64" "a div 4096 mod 64 = b div 4096 mod 64"
      by simp_all
    with m0 digits_join [of a 64 b] digits_join [of a 4096 b] show ?thesis by simp
  next
    case 2
    with d0 d1 have "Suc a mod 4096 = Suc b mod 4096"
      using digits_join [of "Suc a" 64 "Suc b"] by simp
    then have "a mod 4096 = b mod 4096" by (rule mod_Suc_cancel)
    with d2 2 digits_join [of a 4096 b] show ?thesis by simp
  next
    case 3
    with d0 d1 have "Suc a mod 4096 = Suc b mod 4096"
      using digits_join [of "Suc a" 64 "Suc b"] by simp
    with d2 3 have "Suc a mod 262144 = Suc b mod 262144"
      using digits_join [of "Suc a" 4096 "Suc b"] by simp
    then show ?thesis by (rule mod_Suc_cancel)
  qed
  from m2 d3 lt show ?thesis by (rule digits_top)
qed

lemma tagByte_window:
  assumes eq: "\<And>k. k < 4 \<Longrightarrow> tagByte (i + k) = tagByte (j + k)"
    and lt: "i < 2 ^ 24" "j < 2 ^ 24"
  shows "i = j"
proof -
  define a b where "a = i div 4" and "b = j div 4"
  define r where "r = i mod 4"
  from eq [of 0] have "tagByte i div 64 = tagByte j div 64" by simp
  then have rj: "j mod 4 = r" by (simp add: tagByte_residue r_def)
  have i: "i = 4 * a + r" and r: "r < 4" by (simp_all add: a_def r_def)
  have "j = 4 * b + j mod 4" by (simp add: b_def)
  then have j: "j = 4 * b + r" by (simp only: rj)
  have al: "a < 2 ^ 24" and bl: "b < 2 ^ 24" using lt by (simp_all add: a_def b_def)
  have pos: "tagByte (4 * x + r + k) = 64 * ((r + k) mod 4) + ((x + (r + k) div 4) div 64 ^ ((r + k) mod 4)) mod 64" for x k
  proof -
    have "4 * x + r + k = 4 * (x + (r + k) div 4) + (r + k) mod 4" by simp
    moreover have "tagByte (4 * (x + (r + k) div 4) + (r + k) mod 4)
        = 64 * ((r + k) mod 4) + ((x + (r + k) div 4) div 64 ^ ((r + k) mod 4)) mod 64"
      by (rule tagByte_at) simp
    ultimately show ?thesis by (simp only:)
  qed
  have e: "k < 4 \<Longrightarrow> ((a + (r + k) div 4) div 64 ^ ((r + k) mod 4)) mod 64
      = ((b + (r + k) div 4) div 64 ^ ((r + k) mod 4)) mod 64" for k
    using eq [of k] by (simp add: i j pos)
  consider "r = 0" | "r = 1" | "r = 2" | "r = 3" using r by linarith
  then have "a = b"
  proof cases
    case 1
    from e [of 0] e [of 1] e [of 2] e [of 3] show ?thesis
      using window_digits [of a 0 b 0 0] al bl by (simp add: 1)
  next
    case 2
    from e [of 3] e [of 0] e [of 1] e [of 2] show ?thesis
      using window_digits [of a 1 b 0 0] al bl by (simp add: 2)
  next
    case 3
    from e [of 2] e [of 3] e [of 0] e [of 1] show ?thesis
      using window_digits [of a 1 b 1 0] al bl by (simp add: 3)
  next
    case 4
    from e [of 1] e [of 2] e [of 3] e [of 0] show ?thesis
      using window_digits [of a 1 b 1 1] al bl by (simp add: 4)
  qed
  then show ?thesis by (simp add: i j)
qed


definition noRepeat :: "byte list \<Rightarrow> bool" where
  "noRepeat src \<longleftrightarrow>
     (\<forall>i j. i < j \<and> j + 4 \<le> length src \<longrightarrow> (\<exists>k < 4. src ! (i + k) \<noteq> src ! (j + k)))"

lemma scanStep_noRepeat:
  assumes nr: "noRepeat src"
    and t: "tableOk (c_hashTable st) (c_srcPos st)"
    and g: "scanGuard src st"
    and small: "length src < 2 ^ 32"
  shows "\<exists>hashTable'. scanStep src st = Inr (st\<lparr>c_hashTable := hashTable', c_srcPos := c_srcPos st + 1\<rparr>)
           \<and> tableOk hashTable' (c_srcPos st + 1)"
proof -
  from g have g': "c_srcPos st + minMatchLength \<le> length src" by (simp add: scanGuard_def)
  from findMatch_inv [OF t g' small] obtain hashTable' m where
    fm: "findMatch src (c_hashTable st) (c_srcPos st) = Inr (hashTable', m)"
    and t': "tableOk hashTable' (c_srcPos st + 1)"
    and m: "case m of None \<Rightarrow> True | Some (ref, matchLen) \<Rightarrow> matchOk src (c_srcPos st) ref matchLen"
    by blast
  have "m = None"
  proof (cases m)
    case None
    then show ?thesis .
  next
    case (Some rm)
    obtain ref matchLen where rm: "rm = (ref, matchLen)" by (cases rm)
    from m Some rm have ok: "matchOk src (c_srcPos st) ref matchLen" by simp
    then have lt: "unat ref < c_srcPos st" and len: "4 \<le> matchLen"
      and eq: "\<forall>k < matchLen. src ! (c_srcPos st + k) = src ! (unat ref + k)"
      by (simp_all add: matchOk_def minMatchLength_def)
    from nr lt g' obtain k where "k < 4" "src ! (unat ref + k) \<noteq> src ! (c_srcPos st + k)"
      unfolding noRepeat_def minMatchLength_def by blast
    with eq len show ?thesis by auto
  qed
  with fm t' show ?thesis by (auto simp: scanStep_def)
qed

lemma scanLoop_noRepeat:
  assumes "noRepeat src" and "tableOk (c_hashTable st) (c_srcPos st)" and "length src < 2 ^ 32"
  shows "\<exists>hashTable' p. scanLoop src st = Inr (st\<lparr>c_hashTable := hashTable', c_srcPos := p\<rparr>)"
  using assms
proof (induction src st rule: scanLoop.induct)
  case (1 src st)
  show ?case
  proof (cases "scanGuard src st")
    case False
    then have "scanLoop src st = Inr st" by (subst scanLoop.simps) simp
    then have "scanLoop src st = Inr (st\<lparr>c_hashTable := c_hashTable st, c_srcPos := c_srcPos st\<rparr>)"
      by simp
    then show ?thesis by blast
  next
    case True
    from scanStep_noRepeat [OF "1.prems"(1,2) True "1.prems"(3)] obtain h where
      s: "scanStep src st = Inr (st\<lparr>c_hashTable := h, c_srcPos := c_srcPos st + 1\<rparr>)"
      and t: "tableOk h (c_srcPos st + 1)" by blast
    define st' where "st' = st\<lparr>c_hashTable := h, c_srcPos := c_srcPos st + 1\<rparr>"
    from t have "tableOk (c_hashTable st') (c_srcPos st')" by (simp add: st'_def)
    from "1.IH" [OF True s [folded st'_def] "1.prems"(1) this "1.prems"(3)]
    obtain h' p where "scanLoop src st' = Inr (st'\<lparr>c_hashTable := h', c_srcPos := p\<rparr>)" by blast
    then have "scanLoop src st = Inr (st\<lparr>c_hashTable := h', c_srcPos := p\<rparr>)"
      using True s by (subst scanLoop.simps) (simp add: st'_def)
    then show ?thesis by blast
  qed
qed

lemma compressBlock_noRepeat:
  assumes nr: "noRepeat src" and ne: "src \<noteq> []" and small: "length src < 2 ^ 32"
    and room: "length (encLiterals (literalToken (length src)) src) \<le> length dst"
  shows "\<exists>hashTable'. compressBlock src dst hashTable =
     Inr (length (encLiterals (literalToken (length src)) src),
          copyInto dst 0 (encLiterals (literalToken (length src)) src), hashTable')"
proof -
  define st0 where "st0 = \<lparr>c_hashTable = (\<lambda>i. sentinel), c_dst = dst, c_dstPos = 0,
                              c_anchor = 0, c_srcPos = 0\<rparr>"
  have "tableOk (c_hashTable st0) (c_srcPos st0)" by (simp add: st0_def tableOk_def)
  from scanLoop_noRepeat [OF nr this small] obtain h p where
    sl: "scanLoop src st0 = Inr (st0\<lparr>c_hashTable := h, c_srcPos := p\<rparr>)" by blast
  have sl0: "slice src 0 (length src) = src" by (simp add: slice_def)
  have pl: "putLiterals src dst 0 (literalToken (length src)) 0 (length src) =
     Inr (copyInto dst 0 (encLiterals (literalToken (length src)) src),
          length (encLiterals (literalToken (length src)) src))"
    using putLiterals_ok [of 0 "length src" src 0 "literalToken (length src)" dst] room
    by (simp add: sl0)
  have "1 + length src \<le> length dst" using room by (simp add: length_encLiterals)
  then show ?thesis
    using ne sl [unfolded st0_def] pl
    by (simp add: compressBlock_def Let_def)
qed

lemma compressed_noRepeat:
  assumes nr: "noRepeat b" and ne: "b \<noteq> []" and small: "length b < 2 ^ 32"
  shows "compressed b = encLiterals (literalToken (length b)) b"
proof -
  define e where "e = encLiterals (literalToken (length b)) b"
  have room: "length e \<le> length (replicate (worstCase (length b)) (0 :: byte))"
    using length_encLiterals_bound [of "literalToken (length b)" b]
    by (simp add: e_def worstCase_def)
  from compressBlock_noRepeat [OF nr ne small room [unfolded e_def], of "\<lambda>i. 0"]
  obtain h where "compressBlock b (replicate (worstCase (length b)) 0) (\<lambda>i. 0)
      = Inr (length e, copyInto (replicate (worstCase (length b)) 0) 0 e, h)"
    by (auto simp: e_def)
  then show ?thesis
    using take_copyInto0 [OF room] by (simp add: compressed_def e_def)
qed


definition hardBlock :: "byte list" where
  "hardBlock = map (\<lambda>i. word_of_nat (tagByte i)) [0..<4194304]"

lemma length_hardBlock: "length hardBlock = 4194304"
  by (simp add: hardBlock_def)

lemma hardBlock_nth: "i < 4194304 \<Longrightarrow> unat (hardBlock ! i) = tagByte i"
proof -
  assume "i < 4194304"
  then have "hardBlock ! i = word_of_nat (tagByte i)" by (simp add: hardBlock_def)
  moreover have "tagByte i mod 256 = tagByte i" using tagByte_lt [of i] by simp
  ultimately show ?thesis by (simp add: unat_of_nat)
qed

lemma noRepeat_hardBlock: "noRepeat hardBlock"
  unfolding noRepeat_def
proof (intro allI impI)
  fix i j :: nat
  assume a: "i < j \<and> j + 4 \<le> length hardBlock"
  then have ij: "i < j" and j: "j + 4 \<le> 4194304" by (simp_all add: length_hardBlock)
  show "\<exists>k<4. hardBlock ! (i + k) \<noteq> hardBlock ! (j + k)"
  proof (rule ccontr)
    assume "\<not> (\<exists>k<4. hardBlock ! (i + k) \<noteq> hardBlock ! (j + k))"
    then have eq: "k < 4 \<Longrightarrow> hardBlock ! (i + k) = hardBlock ! (j + k)" for k by blast
    have "tagByte (i + k) = tagByte (j + k)" if "k < 4" for k
    proof -
      from that ij j have "i + k < 4194304" "j + k < 4194304" by simp_all
      then have "tagByte (i + k) = unat (hardBlock ! (i + k))" "tagByte (j + k) = unat (hardBlock ! (j + k))"
        by (simp_all only: hardBlock_nth)
      with eq [OF that] show ?thesis by simp
    qed
    moreover from ij j have "i < 2 ^ 24" "j < 2 ^ 24" by simp_all
    ultimately have "i = j" by (rule tagByte_window)
    with ij show False by simp
  qed
qed

lemma length_compressed_hardBlock: "length (compressed hardBlock) = 4210754"
proof -
  have ne: "hardBlock \<noteq> []" using length_hardBlock by auto
  have "length hardBlock < 2 ^ 32" by (simp add: length_hardBlock)
  from compressed_noRepeat [OF noRepeat_hardBlock ne this]
  show ?thesis by (simp add: length_encLiterals length_hardBlock)
qed

lemma readBlock_tooLarge:
  assumes big: "maxBlockSize < length (compressed b)" and fits: "length (compressed b) < 2 ^ 31"
  shows "readBlock (blockRecord b @ rest) = (BlockErr ErrBlockTooLarge, compressed b @ rest)"
proof -
  define c where "c = compressed b"
  define n where "n = (word_of_nat (length c) :: 32 word)"
  have u: "unat n = length c" using fits by (simp add: n_def c_def unat_of_nat)
  have n0: "n \<noteq> 0"
  proof
    assume "n = 0"
    then have "unat n = 0" by simp
    with u big show False by (simp add: c_def)
  qed
  have "unat (n div 2 ^ 31) = length c div 2 ^ 31" by (simp add: unat_div u)
  also have "\<dots> = 0" using fits by (simp add: c_def)
  finally have "n div 2 ^ 31 = 0" by (simp add: unat_eq_zero)
  then have "\<not> bit n 31" by (simp add: bit_iff_odd)
  then have "n AND 2 ^ 31 = 0" using and_exp_eq_0_iff_not_bit [of n 31] by blast
  then have hi: "n AND 0x80000000 = 0" by simp
  have "unat (word_of_nat maxBlockSize :: 32 word) = maxBlockSize"
    by (simp add: unat_of_nat maxBlockSize_def)
  with u big have gt: "n > word_of_nat maxBlockSize" by (simp add: word_less_nat_alt c_def)
  have rf1: "ReadFull (blockRecord b @ rest) 4 = (Inr (PutUint32 n), c @ rest)"
    using ReadFull_append [of "PutUint32 n" "c @ rest"]
    by (simp add: blockRecord_def c_def n_def)
  show ?thesis
    unfolding readBlock_def rf1
    using n0 hi gt by (simp add: Uint32_PutUint32 Let_def c_def)
qed

lemma DecompressStream_tooLarge:
  assumes big: "maxBlockSize < length (compressed b)" and fits: "length (compressed b) < 2 ^ 31"
  shows "DecompressStream (frameHeader @ blockRecord b @ rest) dst = (dst, Some ErrBlockTooLarge)"
proof -
  from ReadFrameHeader_frameHeader [of "blockRecord b @ rest"] obtain header where
    h: "ReadFrameHeader (frameHeader @ blockRecord b @ rest) = (Inr header, blockRecord b @ rest)"
    "checkHeader header = None" by blast
  define r where "r = (NewReader (frameHeader @ blockRecord b @ rest))\<lparr>r_src := blockRecord b @ rest,
      r_headerRead := True\<rparr>"
  have rl: "readLoop r (64 * 1024) [] = (r\<lparr>r_src := compressed b @ rest\<rparr>, [], Some ErrBlockTooLarge)"
    by (subst readLoop.simps) (simp add: r_def NewReader_def readBlock_tooLarge [OF big fits])
  have "readBody r (64 * 1024) = (r\<lparr>r_src := compressed b @ rest\<rparr>, [], Some ErrBlockTooLarge)"
    using rl by (simp add: readBody_def r_def NewReader_def)
  then have "Read (NewReader (frameHeader @ blockRecord b @ rest)) (64 * 1024)
      = (r\<lparr>r_src := compressed b @ rest\<rparr>, [], Some ErrBlockTooLarge)"
    using h by (simp add: Read_def NewReader_def r_def)
  then show ?thesis
    unfolding DecompressStream_def by (subst DecompressLoop.simps) simp
qed

lemma Write_hardBlock:
  "\<exists>hashTable'. Write (NewWriter []) hardBlock =
     (\<lparr>w_dst = frameHeader @ blockRecord hardBlock, w_hashTable = hashTable', w_headerWritten = True\<rparr>,
      4194304, None)"
proof -
  have ne: "hardBlock \<noteq> []" using length_hardBlock by auto
  have "blocksOf hardBlock = [hardBlock]"
    using ne by (rule blocksOf_small) (simp add: length_hardBlock defaultBlockSize_def)
  with Write_ok [of "NewWriter []" hardBlock] show ?thesis
    by (simp add: NewWriter_def flushed_def WriteFrameHeader_eq length_hardBlock)
qed

text \<open>
  A single \<open>Write\<close> followed by \<open>Close\<close> is read back whenever every block of the
  argument compresses to at most \<open>maxBlockSize\<close> bytes; an argument of at most 4177919
  bytes always does.
\<close>

lemma roundtrip_writer_blocks:
  assumes "\<forall>b \<in> set (blocksOf X). length (compressed b) \<le> maxBlockSize"
  shows "\<exists>w. Write (NewWriter []) X = (w, length X, None)
           \<and> DecompressStream (w_dst (Close w)) dst = (dst @ X, None)"
proof -
  from Write_ok [of "NewWriter []" X] obtain h where
    w: "Write (NewWriter []) X =
      (\<lparr>w_dst = frameHeader @ concat (map blockRecord (blocksOf X)), w_hashTable = h,
        w_headerWritten = True\<rparr>, length X, None)"
    by (auto simp: NewWriter_def flushed_def WriteFrameHeader_eq)
  have good: "\<forall>b \<in> set (blocksOf X). goodBlock b"
    using assms length_blocksOf_le [of _ X] by (auto simp: goodBlock_def)
  from DecompressStream_frame [OF good, of "[]" dst]
  have "DecompressStream (frameHeader @ concat (map blockRecord (blocksOf X)) @ PutUint32 endMark) dst
      = (dst @ X, None)" by (simp add: concat_blocksOf)
  with w show ?thesis by (simp add: Close_def WriteFrameEndMark_def)
qed

lemma roundtrip_writer:
  assumes "length X \<le> 4177919"
  shows "\<exists>w. Write (NewWriter []) X = (w, length X, None)
           \<and> DecompressStream (w_dst (Close w)) dst = (dst @ X, None)"
proof (rule roundtrip_writer_blocks, rule ballI)
  fix b assume b: "b \<in> set (blocksOf X)"
  then have ne: "b \<noteq> []" using length_blocksOf_le by blast
  from b assms have "length b \<le> 4177919"
    using length_blocksOf_le_length [of b X] by simp
  then have "length b + length b div 255 + 2 \<le> maxBlockSize"
    by (simp add: maxBlockSize_def)
  with ne have "goodBlock b" by (rule goodBlock_small)
  then show "length (compressed b) \<le> maxBlockSize" by (simp add: goodBlock_def)
qed

text \<open>\<open>CompressStream\<close> writes one block record for each non-empty read.\<close>

lemma blocksOf_reads:
  assumes "\<forall>c \<in> set src. length c \<le> defaultBlockSize"
  shows "concat (map blocksOf src) = filter (\<lambda>c. c \<noteq> []) src"
  using assms
proof (induction src)
  case Nil
  show ?case by simp
next
  case (Cons c src)
  show ?case
  proof (cases "c = []")
    case True
    then have "blocksOf c = []" by (simp add: blocksOf.simps)
    with True Cons show ?thesis by simp
  next
    case False
    with Cons.prems have "blocksOf c = [c]" by (simp add: blocksOf_small)
    with False Cons show ?thesis by simp
  qed
qed

lemma CompressStream_records:
  assumes "\<forall>c \<in> set src. length c \<le> 64 * 1024"
  shows "CompressStream src dst =
     (dst @ frameHeader @ concat (map blockRecord (filter (\<lambda>c. c \<noteq> []) src)) @ PutUint32 endMark,
      None)"
proof -
  from assms have "\<forall>c \<in> set src. length c \<le> defaultBlockSize"
    by (auto simp: defaultBlockSize_def)
  then show ?thesis by (simp add: CompressStream_ok blocksOf_reads)
qed

section \<open>The match copy of the decoder and the destination of the compressor\<close>

text \<open>
  The offset that \<open>decompressBlock\<close> reads at \<open>srcPos\<close> (line 296), and the match length
  with the position behind its extension bytes (lines 302 to 316); \<open>None\<close> is the return
  of \<open>io.ErrUnexpectedEOF\<close> from the extension loop.
\<close>

definition matchOffset :: "byte list \<Rightarrow> dstate \<Rightarrow> nat" where
  "matchOffset src st3 = unat (Uint16 (drop (d_srcPos st3) src))"

definition matchLength :: "byte list \<Rightarrow> byte \<Rightarrow> dstate \<Rightarrow> (nat \<times> nat) option" where
  "matchLength src token st3 =
     (case (if unat (token AND 0x0F) = 15
            then getLength src (d_srcPos st3 + 2) (unat (token AND 0x0F))
            else Some (unat (token AND 0x0F), d_srcPos st3 + 2)) of
        None \<Rightarrow> None
      | Some (matchLen1, srcPos5) \<Rightarrow> Some (matchLen1 + minMatchLength, srcPos5))"

text \<open>
  A match that \<open>decodeMatch\<close> copies with \<open>offset < matchLen\<close> repeats the last \<open>offset\<close>
  bytes of the output: first for every such match that is copied, then with the
  conditions under which one is copied.
\<close>

lemma decodeMatch_overlap:
  assumes ok: "decodeMatch src token st3 = DNext st'"
    and ov: "unat (Uint16 (drop (d_srcPos st3) src)) < d_dstPos st' - d_dstPos st3"
  shows "0 < unat (Uint16 (drop (d_srcPos st3) src))
       \<and> unat (Uint16 (drop (d_srcPos st3) src)) \<le> d_dstPos st3
       \<and> d_dstPos st3 \<le> d_dstPos st' \<and> d_dstPos st' \<le> length (d_dst st3)
       \<and> length (d_dst st') = length (d_dst st3)
       \<and> take (d_dstPos st3) (d_dst st') = take (d_dstPos st3) (d_dst st3)
       \<and> (\<forall>j < d_dstPos st' - d_dstPos st3.
             d_dst st' ! (d_dstPos st3 + j)
               = d_dst st3 ! (d_dstPos st3 - unat (Uint16 (drop (d_srcPos st3) src))
                               + j mod unat (Uint16 (drop (d_srcPos st3) src))))"
proof -
  define off where "off = unat (Uint16 (drop (d_srcPos st3) src))"
  define q where "q = d_dstPos st3"
  define D where "D = d_dst st3"
  define ml where "ml = (if unat (token AND 0x0F) = 15 then getLength src (d_srcPos st3 + 2) (unat (token AND 0x0F))
                   else Some (unat (token AND 0x0F), d_srcPos st3 + 2))"
  from ok have off: "0 < off" "off \<le> q"
    by (auto simp: decodeMatch_def Let_def off_def q_def split: if_splits option.splits)
  from ok obtain m p where ml: "ml = Some (m, p)"
    by (cases ml) (auto simp: decodeMatch_def Let_def ml_def split: if_splits)
  define M where "M = m + minMatchLength"
  from ok ml have room: "q + M \<le> length D"
    by (auto simp: decodeMatch_def Let_def ml_def M_def q_def D_def split: if_splits prod.splits)
  from copyLoop_periodic [of "q - off" q M D] off room
  obtain D' where D': "copyLoop D (q - off) q M 0 = (D', q + M)" "length D' = length D"
    "take q D' = take q D" "\<forall>j < M. D' ! (q + j) = D ! (q - off + j mod (q - (q - off)))"
    by auto
  have qq: "q - (q - off) = off" using off by simp
  have st': "M \<le> off \<and> st' = \<lparr>d_dst = copyInto D q (slice D (q - off) (q - off + M)), d_srcPos = p, d_dstPos = q + M\<rparr>
      \<or> off < M \<and> st' = \<lparr>d_dst = D', d_srcPos = p, d_dstPos = q + M\<rparr>"
    using ok ml [unfolded ml_def] off room D'(1)
    by (auto simp: decodeMatch_def Let_def M_def q_def D_def off_def split: if_splits)
  from ov have "off < d_dstPos st' - q" by (simp add: off_def q_def)
  with st' have s: "st' = \<lparr>d_dst = D', d_srcPos = p, d_dstPos = q + M\<rparr>" by auto
  show ?thesis
    unfolding off_def [symmetric] q_def [symmetric] D_def [symmetric]
    using off room D' s by (simp add: qq)
qed

lemma decodeMatch_run:
  assumes src: "d_srcPos st3 + 2 \<le> length src"
    and off: "0 < matchOffset src st3" "matchOffset src st3 \<le> d_dstPos st3"
    and len: "matchLength src token st3 = Some (matchLen, srcPos5)"
    and room: "d_dstPos st3 + matchLen \<le> length (d_dst st3)"
    and ov: "matchOffset src st3 < matchLen"
  shows "\<exists>dst'. decodeMatch src token st3
             = DNext \<lparr>d_dst = dst', d_srcPos = srcPos5, d_dstPos = d_dstPos st3 + matchLen\<rparr>
           \<and> length dst' = length (d_dst st3)
           \<and> take (d_dstPos st3) dst' = take (d_dstPos st3) (d_dst st3)
           \<and> (\<forall>j < matchLen. dst' ! (d_dstPos st3 + j)
                 = d_dst st3 ! (d_dstPos st3 - matchOffset src st3 + j mod matchOffset src st3))"
proof -
  define o' where "o' = matchOffset src st3"
  define q where "q = d_dstPos st3"
  define D where "D = d_dst st3"
  from copyLoop_periodic [of "q - o'" q matchLen D] off room
  obtain D' where D': "copyLoop D (q - o') q matchLen 0 = (D', q + matchLen)" "length D' = length D"
    "take q D' = take q D" "\<forall>j < matchLen. D' ! (q + j) = D ! (q - o' + j mod (q - (q - o')))"
    by (auto simp: o'_def q_def D_def)
  have qq: "q - (q - o') = o'" using off by (simp add: o'_def q_def)
  from len obtain m where
    m: "(if unat (token AND 0x0F) = 15
            then getLength src (d_srcPos st3 + 2) (unat (token AND 0x0F))
            else Some (unat (token AND 0x0F), d_srcPos st3 + 2)) = Some (m, srcPos5)"
      "matchLen = m + minMatchLength"
    by (auto simp: matchLength_def split: option.splits if_splits)
  have "decodeMatch src token st3 = DNext \<lparr>d_dst = D', d_srcPos = srcPos5, d_dstPos = q + matchLen\<rparr>"
    using src off room ov m D'(1)
    unfolding decodeMatch_def Let_def matchOffset_def o'_def q_def D_def
    by (simp add: int_less_uint split: if_splits)
  with D' show ?thesis
    unfolding o'_def [symmetric] q_def [symmetric] D_def [symmetric] by (simp add: qq)
qed

lemma decode_run2:
  "decompressBlock [0x21, 0x61, 0x62, 0x02, 0x00] [0, 0, 0, 0, 0, 0, 0]
     = (7, None, [0x61, 0x62, 0x61, 0x62, 0x61, 0x62, 0x61])"
proof -
  have s: "decodeStep [0x21, 0x61, 0x62, 0x02, 0x00] \<lparr>d_dst = [0, 0, 0, 0, 0, 0, 0], d_srcPos = 0, d_dstPos = 0\<rparr>
       = DNext \<lparr>d_dst = [0x61, 0x62, 0x61, 0x62, 0x61, 0x62, 0x61], d_srcPos = 5, d_dstPos = 7\<rparr>"
    by (simp add: decodeStep_def decodeLiterals_def decodeMatch_def Let_def copyInto_def slice_def
        Uint16_def minMatchLength_def copyLoop.simps)
  have "decodeLoop [0x21, 0x61, 0x62, 0x02, 0x00] \<lparr>d_dst = [0, 0, 0, 0, 0, 0, 0], d_srcPos = 0, d_dstPos = 0\<rparr>
       = (\<lparr>d_dst = [0x61, 0x62, 0x61, 0x62, 0x61, 0x62, 0x61], d_srcPos = 5, d_dstPos = 7\<rparr>, None)"
    by (subst decodeLoop.simps, simp add: s, subst decodeLoop.simps, simp)
  then show ?thesis by (simp add: decompressBlock_def)
qed



section \<open>The claims\<close>

text \<open>
  C1, as stated, fails on the path \<open>Writer.Write\<close> then \<open>Close\<close>. \<open>Write\<close> accepts the
  4 MiB block \<open>hardBlock\<close>, in which no 4-byte window occurs twice, and writes it as one
  record of 4210754 bytes; \<open>Read\<close> has a buffer of \<open>maxBlockSize = 4194304\<close> bytes and
  refuses the record with \<open>ErrBlockTooLarge\<close>, so nothing is decoded.
\<close>

theorem C1_counterexample:
  "length hardBlock = 4194304
   \<and> snd (Write (NewWriter []) hardBlock) = (4194304, None)
   \<and> DecompressStream (w_dst (Close (fst (Write (NewWriter []) hardBlock)))) []
       = ([], Some ErrBlockTooLarge)"
proof -
  from Write_hardBlock obtain h where
    w: "Write (NewWriter []) hardBlock =
     (\<lparr>w_dst = frameHeader @ blockRecord hardBlock, w_hashTable = h, w_headerWritten = True\<rparr>,
      4194304, None)" by blast
  have "DecompressStream (frameHeader @ blockRecord hardBlock @ PutUint32 endMark) []
      = ([], Some ErrBlockTooLarge)"
    by (rule DecompressStream_tooLarge) (simp_all add: length_compressed_hardBlock maxBlockSize_def)
  with w show ?thesis
    by (simp add: Close_def WriteFrameEndMark_def length_hardBlock)
qed

text \<open>
  C1, amended: \<open>CompressStream\<close> followed by \<open>DecompressStream\<close> returns the input,
  whatever the input and however the source reader cuts it into the reads of at most
  64 KiB that fit the buffer of \<open>CompressStream\<close>. A single \<open>Write\<close> followed by
  \<open>Close\<close> and \<open>DecompressStream\<close> returns the input whenever each of its blocks
  compresses to at most \<open>maxBlockSize\<close> bytes, and that is so for every input of at most
  4177919 bytes.
\<close>

theorem C1_roundtrip:
  "((\<forall>c \<in> set src. length c \<le> 64 * 1024) \<longrightarrow>
      (\<exists>frame. CompressStream src [] = (frame, None)
         \<and> DecompressStream frame [] = (concat src, None)))
   \<and> ((\<forall>b \<in> set (blocksOf X). length (compressed b) \<le> maxBlockSize) \<longrightarrow>
      (\<exists>w. Write (NewWriter []) X = (w, length X, None)
         \<and> DecompressStream (w_dst (Close w)) [] = (X, None)))
   \<and> (length Y \<le> 4177919 \<longrightarrow>
      (\<exists>w. Write (NewWriter []) Y = (w, length Y, None)
         \<and> DecompressStream (w_dst (Close w)) [] = (Y, None)))"
  using roundtrip_chunks [of src "[]"] roundtrip_writer_blocks [of X "[]"]
    roundtrip_writer [of Y "[]"] by simp

theorem C1_roundtrip_witness:
  "(\<exists>frame. CompressStream [[0x61, 0x62, 0x63], [], [0x64]] [] = (frame, None)
      \<and> DecompressStream frame [] = ([0x61, 0x62, 0x63, 0x64], None))
   \<and> (\<exists>w. Write (NewWriter []) [0x61, 0x62] = (w, 2, None)
      \<and> DecompressStream (w_dst (Close w)) [] = ([0x61, 0x62], None))
   \<and> (\<exists>w. Write (NewWriter []) [0x61, 0x62, 0x63] = (w, 3, None)
      \<and> DecompressStream (w_dst (Close w)) [] = ([0x61, 0x62, 0x63], None))"
  using C1_roundtrip [of "[[0x61, 0x62, 0x63], [], [0x64]]" "[0x61, 0x62]" "[0x61, 0x62, 0x63]"]
  by (simp add: numeral_3_eq_3 numeral_2_eq_2 blocksOf_small compressed_short
      defaultBlockSize_def maxBlockSize_def)

text \<open>
  C2 fails on the code: \<open>checkHeader\<close>, the test of the decoded header in \<open>Read\<close>, never
  looks at \<open>ContentChecksumFlag\<close>, while it rejects each of the other three flags. The
  frame \<open>04 22 4D 18 64 40 A7\<close>, \<open>00 00 00 00\<close>, \<open>05 5D CC 02\<close> (version 1, blocks
  independent, content checksum set; no block; the checksum of the empty content) is
  accepted: the first \<open>Read\<close> returns no error and leaves the content checksum unread.
\<close>

theorem C2_content_checksum_accepted:
  "Read (NewReader [0x04, 0x22, 0x4D, 0x18, 0x64, 0x40, 0xA7, 0, 0, 0, 0, 0x05, 0x5D, 0xCC, 0x02]) 65536
     = (\<lparr>r_src = [0x05, 0x5D, 0xCC, 0x02], r_leftover = [], r_leftoverPos = 0, r_eof = True,
         r_headerRead = True\<rparr>, [], None)
   \<and> checkHeader (header\<lparr>ContentChecksumFlag := True\<rparr>) = checkHeader header"
proof -
  have "Read (NewReader [0x04, 0x22, 0x4D, 0x18, 0x64, 0x40, 0xA7, 0, 0, 0, 0, 0x05, 0x5D, 0xCC, 0x02]) 65536
     = (\<lparr>r_src = [0x05, 0x5D, 0xCC, 0x02], r_leftover = [], r_leftoverPos = 0, r_eof = True,
         r_headerRead = True\<rparr>, [], None)"
    by (simp add: Read_def NewReader_def ReadFrameHeader_def ReadFull_def Uint32_def magic_def
        blockMaxSizeOf_def checkHeader_def readBody_def readLoop.simps readBlock_def Let_def)
  moreover have "checkHeader (header\<lparr>ContentChecksumFlag := True\<rparr>) = checkHeader header"
    by (simp add: checkHeader_def)
  ultimately show ?thesis by blast
qed

text \<open>
  C3, as stated, fails: the writer does not accumulate input across \<open>Write\<close> calls. Two
  calls with one byte each write two block records; one call with the same two bytes
  writes one.
\<close>

theorem C3_counterexample:
  "w_dst (Close (fst (Write (fst (Write (NewWriter []) [0x61])) [0x62])))
     = [0x04, 0x22, 0x4D, 0x18, 0x60, 0x70, 0x73,
        2, 0, 0, 0, 0x10, 0x61, 2, 0, 0, 0, 0x10, 0x62, 0, 0, 0, 0]
   \<and> w_dst (Close (fst (Write (NewWriter []) [0x61, 0x62])))
     = [0x04, 0x22, 0x4D, 0x18, 0x60, 0x70, 0x73, 3, 0, 0, 0, 0x20, 0x61, 0x62, 0, 0, 0, 0]"
proof -
  have b1: "blocksOf [0x61 :: byte] = [[0x61]]" "blocksOf [0x62 :: byte] = [[0x62]]"
    "blocksOf [0x61, 0x62 :: byte] = [[0x61, 0x62]]"
    by (rule blocksOf_small; simp add: defaultBlockSize_def)+
  have r: "blockRecord [0x61] = [2, 0, 0, 0, 0x10, 0x61]" "blockRecord [0x62] = [2, 0, 0, 0, 0x10, 0x62]"
    "blockRecord [0x61, 0x62] = [3, 0, 0, 0, 0x20, 0x61, 0x62]"
    by (simp_all add: blockRecord_def compressed_short literalToken_def PutUint32_def)
  from Write_ok [of "NewWriter []" "[0x61]"] obtain h1 where
    w1: "Write (NewWriter []) [0x61] =
      ((NewWriter [])\<lparr>w_dst := flushed (NewWriter []) @ concat (map blockRecord (blocksOf [0x61])),
         w_hashTable := h1, w_headerWritten := True\<rparr>, length [0x61 :: byte], None)" by blast
  define wa where "wa = fst (Write (NewWriter []) [0x61])"
  have wa: "w_dst wa = frameHeader @ [2, 0, 0, 0, 0x10, 0x61]" "w_headerWritten wa"
    unfolding wa_def w1 by (simp_all add: flushed_def NewWriter_def WriteFrameHeader_eq b1 r)
  from Write_ok [of wa "[0x62]"] obtain h2 where
    w2: "Write wa [0x62] =
      (wa\<lparr>w_dst := flushed wa @ concat (map blockRecord (blocksOf [0x62])),
         w_hashTable := h2, w_headerWritten := True\<rparr>, length [0x62 :: byte], None)" by blast
  have a: "w_dst (Close (fst (Write wa [0x62])))
      = frameHeader @ [2, 0, 0, 0, 0x10, 0x61] @ [2, 0, 0, 0, 0x10, 0x62] @ [0, 0, 0, 0]"
    unfolding w2 using wa
    by (simp add: flushed_def Close_def b1 r WriteFrameEndMark_def endMark_bytes Let_def)
  from Write_ok [of "NewWriter []" "[0x61, 0x62]"] obtain h3 where
    w3: "Write (NewWriter []) [0x61, 0x62] =
      ((NewWriter [])\<lparr>w_dst := flushed (NewWriter []) @ concat (map blockRecord (blocksOf [0x61, 0x62])),
         w_hashTable := h3, w_headerWritten := True\<rparr>, length [0x61, 0x62 :: byte], None)" by blast
  have b: "w_dst (Close (fst (Write (NewWriter []) [0x61, 0x62])))
      = frameHeader @ [3, 0, 0, 0, 0x20, 0x61, 0x62] @ [0, 0, 0, 0]"
    unfolding w3
    by (simp add: flushed_def NewWriter_def WriteFrameHeader_eq Close_def b1 r WriteFrameEndMark_def
        endMark_bytes Let_def)
  from a b show ?thesis by (simp add: wa_def frameHeader_def)
qed

text \<open>
  C3, amended: a single \<open>Write\<close> call with 10 MiB of input succeeds and, followed by
  \<open>Close\<close>, writes the header, exactly three block records (each the 4-byte length of
  the compressed block and the compressed block) for the first 4 MiB, the next 4 MiB and
  the last 2 MiB of the input, and the end-mark. \<open>CompressStream\<close>, which passes each
  read of at most 64 KiB to \<open>Write\<close>, writes one block record for each non-empty read.
\<close>

theorem C3_block_records:
  "(length p = 10 * 1024 * 1024 \<longrightarrow>
      (\<exists>w'. Write (NewWriter []) p = (w', 10 * 1024 * 1024, None)
           \<and> w_dst (Close w') =
                frameHeader
                @ blockRecord (take 4194304 p)
                @ blockRecord (take 4194304 (drop 4194304 p))
                @ blockRecord (drop 8388608 p)
                @ PutUint32 endMark
           \<and> length (take 4194304 p) = 4 * 1024 * 1024
           \<and> length (take 4194304 (drop 4194304 p)) = 4 * 1024 * 1024
           \<and> length (drop 8388608 p) = 2 * 1024 * 1024))
   \<and> ((\<forall>c \<in> set src. length c \<le> 64 * 1024) \<longrightarrow>
      CompressStream src [] =
        (frameHeader @ concat (map blockRecord (filter (\<lambda>c. c \<noteq> []) src)) @ PutUint32 endMark,
         None))"
proof (intro conjI impI)
  assume len: "length p = 10 * 1024 * 1024"
  from Write_ok [of "NewWriter []" p] obtain h where
    w: "Write (NewWriter []) p =
      ((NewWriter [])\<lparr>w_dst := flushed (NewWriter []) @ concat (map blockRecord (blocksOf p)),
         w_hashTable := h, w_headerWritten := True\<rparr>, length p, None)" by blast
  show "\<exists>w'. Write (NewWriter []) p = (w', 10 * 1024 * 1024, None)
           \<and> w_dst (Close w') =
                frameHeader
                @ blockRecord (take 4194304 p)
                @ blockRecord (take 4194304 (drop 4194304 p))
                @ blockRecord (drop 8388608 p)
                @ PutUint32 endMark
           \<and> length (take 4194304 p) = 4 * 1024 * 1024
           \<and> length (take 4194304 (drop 4194304 p)) = 4 * 1024 * 1024
           \<and> length (drop 8388608 p) = 2 * 1024 * 1024"
    unfolding w using len
    by (simp add: blocksOf_10MiB flushed_def NewWriter_def WriteFrameHeader_eq Close_def
        WriteFrameEndMark_def Let_def)
next
  assume "\<forall>c \<in> set src. length c \<le> 64 * 1024"
  then show "CompressStream src [] =
        (frameHeader @ concat (map blockRecord (filter (\<lambda>c. c \<noteq> []) src)) @ PutUint32 endMark,
         None)"
    using CompressStream_records [of src "[]"] by simp
qed

theorem C3_block_records_witness:
  "(\<exists>w'. Write (NewWriter []) (replicate 10485760 0) = (w', 10 * 1024 * 1024, None)
           \<and> w_dst (Close w') =
                frameHeader
                @ blockRecord (take 4194304 (replicate 10485760 0))
                @ blockRecord (take 4194304 (drop 4194304 (replicate 10485760 0)))
                @ blockRecord (drop 8388608 (replicate 10485760 0))
                @ PutUint32 endMark)
   \<and> CompressStream [[0x61], [], [0x62]] [] =
        (frameHeader @ blockRecord [0x61] @ blockRecord [0x62] @ PutUint32 endMark, None)"
proof -
  have "length (replicate 10485760 (0 :: byte)) = 10 * 1024 * 1024" by simp
  with C3_block_records [of "replicate 10485760 0" "[[0x61], [], [0x62]]"] show ?thesis by simp
qed

text \<open>
  C4, as stated, fails: the payload of a block of 256 zero bytes starts with the token
  \<open>0x1F\<close>, not \<open>0xF0\<close>. The frame written for that input is the header, the length
  prefix 5, the payload \<open>1F 00 01 00 EC\<close> and the end-mark.
\<close>

theorem C4_counterexample:
  "fst (CompressStream [replicate 256 0] [])
     = [0x04, 0x22, 0x4D, 0x18, 0x60, 0x70, 0x73, 5, 0, 0, 0, 0x1F, 0x00, 0x01, 0x00, 0xEC, 0, 0, 0, 0]
   \<and> fst (CompressStream [replicate 256 0] []) ! 11 \<noteq> 0xF0"
proof -
  have b: "blocksOf (replicate 256 (0 :: byte)) = [replicate 256 0]"
    by (rule blocksOf_small) (simp_all add: defaultBlockSize_def)
  have "fst (CompressStream [replicate 256 0] [])
     = [0x04, 0x22, 0x4D, 0x18, 0x60, 0x70, 0x73, 5, 0, 0, 0, 0x1F, 0x00, 0x01, 0x00, 0xEC, 0, 0, 0, 0]"
    by (simp add: CompressStream_ok b blockRecord_def compressed_zeros256 PutUint32_5 endMark_bytes
        frameHeader_def)
  then show ?thesis by simp
qed

text \<open>
  C4, amended: compressing a block of 256 zero bytes into a buffer of at least 5 bytes
  writes the 5 bytes \<open>1F 00 01 00 EC\<close>: the token \<open>0x1F\<close> (one literal, match length
  extended), the literal zero, the offset 1, and the extension byte \<open>236 = 255 - 4 - 15\<close>
  of the match of length 255; decoding these 5 bytes gives the 256 zeros back.
\<close>

theorem C4_zero_run:
  "(5 \<le> length dst \<longrightarrow>
      (\<exists>h. compressBlock (replicate 256 0) dst hashTable
              = Inr (5, [0x1F, 0x00, 0x01, 0x00, 0xEC] @ drop 5 dst, h)))
   \<and> (256 \<le> length buf \<longrightarrow>
      (\<exists>buf'. decompressBlock [0x1F, 0x00, 0x01, 0x00, 0xEC] buf = (256, None, buf')
              \<and> take 256 buf' = replicate 256 0))"
proof -
  have "\<exists>buf'. decompressBlock [0x1F, 0x00, 0x01, 0x00, 0xEC] buf = (256, None, buf')
              \<and> take 256 buf' = replicate 256 0" if len: "256 \<le> length buf"
  proof -
    have ne: "replicate 256 (0 :: byte) \<noteq> []" by simp
    have small: "length (replicate 256 (0 :: byte)) < 2 ^ 32" by simp
    from compressBlock_compressed [OF ne small, of "\<lambda>i. 0"] len
    show ?thesis by (simp add: compressed_zeros256) blast
  qed
  with compressBlock_zeros256 [of dst hashTable] show ?thesis by blast
qed

theorem C4_zero_run_witness:
  "(\<exists>h. compressBlock (replicate 256 0) [0, 0, 0, 0, 0, 0] (\<lambda>i. 0)
              = Inr (5, [0x1F, 0x00, 0x01, 0x00, 0xEC, 0], h))
   \<and> (\<exists>buf'. decompressBlock [0x1F, 0x00, 0x01, 0x00, 0xEC] (replicate 256 0) = (256, None, buf')
              \<and> take 256 buf' = replicate 256 0)"
  using C4_zero_run [where dst = "[0, 0, 0, 0, 0, 0]" and buf = "replicate 256 0" and hashTable = "\<lambda>i. 0"]
  by simp




text \<open>
  C6: the sequence stream \<open>1F 61 01 00 F0\<close> (one literal \<open>'a'\<close>, then a match with offset
  1 and length 259) decodes to 260 bytes \<open>'a'\<close> in any buffer of at least 260 bytes, and
  \<open>21 61 62 02 00\<close> (the literals \<open>'a'\<close>, \<open>'b'\<close>, then a match with offset 2 and length 5)
  decodes to \<open>ab ab ab a\<close>. In general, when \<open>decompressBlock\<close> has read a match with
  \<open>0 < offset \<le> dstPos\<close>, a complete match length, room for the match in the buffer and
  \<open>offset < matchLen\<close>, it copies the match, leaves the bytes before \<open>dstPos\<close> as they are
  and writes at \<open>dstPos + j\<close> the byte that stood at \<open>dstPos - offset + j mod offset\<close>:
  the last \<open>offset\<close> bytes of the output, repeated. Every match with \<open>offset < matchLen\<close>
  that the decoder copies is of that form.
\<close>

theorem C6_overlap_copy:
  "(length dst \<ge> 260 \<longrightarrow>
      (\<exists>dst'. decompressBlock [0x1F, 0x61, 0x01, 0x00, 0xF0] dst = (260, None, dst')
           \<and> take 260 dst' = replicate 260 0x61))
   \<and> decompressBlock [0x21, 0x61, 0x62, 0x02, 0x00] [0, 0, 0, 0, 0, 0, 0]
        = (7, None, [0x61, 0x62, 0x61, 0x62, 0x61, 0x62, 0x61])
   \<and> (d_srcPos st3 + 2 \<le> length src
        \<and> 0 < matchOffset src st3 \<and> matchOffset src st3 \<le> d_dstPos st3
        \<and> matchLength src token st3 = Some (matchLen, srcPos5)
        \<and> d_dstPos st3 + matchLen \<le> length (d_dst st3)
        \<and> matchOffset src st3 < matchLen \<longrightarrow>
      (\<exists>dst'. decodeMatch src token st3
             = DNext \<lparr>d_dst = dst', d_srcPos = srcPos5, d_dstPos = d_dstPos st3 + matchLen\<rparr>
           \<and> length dst' = length (d_dst st3)
           \<and> take (d_dstPos st3) dst' = take (d_dstPos st3) (d_dst st3)
           \<and> (\<forall>j < matchLen. dst' ! (d_dstPos st3 + j)
                 = d_dst st3 ! (d_dstPos st3 - matchOffset src st3 + j mod matchOffset src st3))))
   \<and> (decodeMatch src token st3 = DNext st'
        \<and> matchOffset src st3 < d_dstPos st' - d_dstPos st3 \<longrightarrow>
      0 < matchOffset src st3 \<and> matchOffset src st3 \<le> d_dstPos st3
      \<and> d_dstPos st3 \<le> d_dstPos st' \<and> d_dstPos st' \<le> length (d_dst st3)
      \<and> length (d_dst st') = length (d_dst st3)
      \<and> take (d_dstPos st3) (d_dst st') = take (d_dstPos st3) (d_dst st3)
      \<and> (\<forall>j < d_dstPos st' - d_dstPos st3.
             d_dst st' ! (d_dstPos st3 + j)
               = d_dst st3 ! (d_dstPos st3 - matchOffset src st3 + j mod matchOffset src st3)))"
  using decode_run [of dst] decode_run2
    decodeMatch_run [of st3 src token matchLen srcPos5]
    decodeMatch_overlap [of src token st3 st', folded matchOffset_def]
  by blast

theorem C6_overlap_copy_witness:
  "(\<exists>dst'. decompressBlock [0x1F, 0x61, 0x01, 0x00, 0xF0] (replicate 260 0) = (260, None, dst')
           \<and> take 260 dst' = replicate 260 0x61)
   \<and> (\<exists>dst'. decodeMatch [0x21, 0x61, 0x62, 0x02, 0x00] 0x21
                 \<lparr>d_dst = [0x61, 0x62, 0, 0, 0, 0, 0], d_srcPos = 3, d_dstPos = 2\<rparr>
             = DNext \<lparr>d_dst = dst', d_srcPos = 5, d_dstPos = 7\<rparr>
           \<and> length dst' = 7 \<and> take 2 dst' = [0x61, 0x62]
           \<and> dst' ! 2 = 0x61 \<and> dst' ! 3 = 0x62 \<and> dst' ! 4 = 0x61 \<and> dst' ! 5 = 0x62
           \<and> dst' ! 6 = 0x61)
   \<and> matchOffset [0x21, 0x61, 0x62, 0x02, 0x00]
        \<lparr>d_dst = [0x61, 0x62, 0, 0, 0, 0, 0], d_srcPos = 3, d_dstPos = 2\<rparr> = 2
   \<and> matchLength [0x21, 0x61, 0x62, 0x02, 0x00] 0x21
        \<lparr>d_dst = [0x61, 0x62, 0, 0, 0, 0, 0], d_srcPos = 3, d_dstPos = 2\<rparr> = Some (5, 5)"
proof -
  define S :: "byte list" where "S = [0x21, 0x61, 0x62, 0x02, 0x00]"
  define st3 where "st3 = \<lparr>d_dst = [0x61, 0x62, 0, 0, 0, 0, 0 :: byte], d_srcPos = 3, d_dstPos = 2\<rparr>"
  define st' where "st' = \<lparr>d_dst = [0x61, 0x62, 0x61, 0x62, 0x61, 0x62, 0x61 :: byte], d_srcPos = 5, d_dstPos = 7\<rparr>"
  note c6 = C6_overlap_copy [where dst = "replicate 260 0" and src = S and token = "0x21"
      and ?st3.0 = st3 and matchLen = 5 and ?srcPos5.0 = 5 and st' = st']
  have o: "matchOffset S st3 = 2" by (simp add: matchOffset_def S_def st3_def Uint16_def)
  have l: "matchLength S 0x21 st3 = Some (5, 5)"
    by (simp add: matchLength_def S_def st3_def minMatchLength_def)
  have h3: "d_srcPos st3 + 2 \<le> length S
        \<and> 0 < matchOffset S st3 \<and> matchOffset S st3 \<le> d_dstPos st3
        \<and> matchLength S 0x21 st3 = Some (5, 5)
        \<and> d_dstPos st3 + 5 \<le> length (d_dst st3)
        \<and> matchOffset S st3 < 5"
    unfolding o l by (simp add: S_def st3_def)
  have d: "decodeMatch S 0x21 st3 = DNext st'"
    by (simp add: decodeMatch_def Let_def S_def st3_def st'_def Uint16_def minMatchLength_def
        copyLoop.simps)
  have h4: "decodeMatch S 0x21 st3 = DNext st' \<and> matchOffset S st3 < d_dstPos st' - d_dstPos st3"
    unfolding o using d by (simp add: st3_def st'_def)
  have a: "\<exists>dst'. decompressBlock [0x1F, 0x61, 0x01, 0x00, 0xF0] (replicate 260 0) = (260, None, dst')
           \<and> take 260 dst' = replicate 260 0x61"
    using c6 by simp
  from c6 h3 obtain dst' where b: "decodeMatch S 0x21 st3
             = DNext \<lparr>d_dst = dst', d_srcPos = 5, d_dstPos = d_dstPos st3 + 5\<rparr>"
    "length dst' = length (d_dst st3)" "take (d_dstPos st3) dst' = take (d_dstPos st3) (d_dst st3)"
    "\<forall>j < 5. dst' ! (d_dstPos st3 + j)
                 = d_dst st3 ! (d_dstPos st3 - matchOffset S st3 + j mod matchOffset S st3)"
    by blast
  from b(4) [unfolded o] have n: "dst' ! (2 + j) = [0x61, 0x62, 0, 0, 0, 0, 0] ! (j mod 2)" if "j < 5" for j
    using that by (simp add: st3_def)
  from n [of 0] n [of 1] n [of 2] n [of 3] n [of 4]
  have e: "dst' ! 2 = 0x61 \<and> dst' ! 3 = 0x62 \<and> dst' ! 4 = 0x61 \<and> dst' ! 5 = 0x62 \<and> dst' ! 6 = 0x61"
    by simp
  from c6 h4 have "length (d_dst st') = length (d_dst st3)" by blast
  from b(1,2,3) e have "decodeMatch S 0x21 st3 = DNext \<lparr>d_dst = dst', d_srcPos = 5, d_dstPos = 7\<rparr>
           \<and> length dst' = 7 \<and> take 2 dst' = [0x61, 0x62]
           \<and> dst' ! 2 = 0x61 \<and> dst' ! 3 = 0x62 \<and> dst' ! 4 = 0x61 \<and> dst' ! 5 = 0x62
           \<and> dst' ! 6 = 0x61"
    by (simp add: st3_def)
  then have "\<exists>dst'. decodeMatch S 0x21 st3 = DNext \<lparr>d_dst = dst', d_srcPos = 5, d_dstPos = 7\<rparr>
           \<and> length dst' = 7 \<and> take 2 dst' = [0x61, 0x62]
           \<and> dst' ! 2 = 0x61 \<and> dst' ! 3 = 0x62 \<and> dst' ! 4 = 0x61 \<and> dst' ! 5 = 0x62
           \<and> dst' ! 6 = 0x61" ..
  with a o l show ?thesis unfolding S_def st3_def by blast
qed

text \<open>
  C7, as stated, fails in its last part: the count returned with \<open>ErrCorrupted\<close> is not
  the number of bytes decoded before the failing sequence. In \<open>10 61 00 00\<close> the first
  sequence, entered with 0 bytes decoded, has one literal and the offset 0; the function
  returns 1.
\<close>

theorem C7_counterexample:
  "decompressBlock [0x10, 0x61, 0x00, 0x00] [0, 0, 0, 0] = (1, Some ErrCorrupted, [0x61, 0, 0, 0])
   \<and> decodeStep [0x10, 0x61, 0x00, 0x00] \<lparr>d_dst = [0, 0, 0, 0], d_srcPos = 0, d_dstPos = 0\<rparr>
       = DFail \<lparr>d_dst = [0x61, 0, 0, 0], d_srcPos = 2, d_dstPos = 1\<rparr> ErrCorrupted
   \<and> d_dstPos \<lparr>d_dst = [0, 0, 0, 0], d_srcPos = 0, d_dstPos = 0\<rparr> \<noteq> 1"
proof -
  have s: "decodeStep [0x10, 0x61, 0x00, 0x00] \<lparr>d_dst = [0, 0, 0, 0], d_srcPos = 0, d_dstPos = 0\<rparr>
       = DFail \<lparr>d_dst = [0x61, 0, 0, 0], d_srcPos = 2, d_dstPos = 1\<rparr> ErrCorrupted"
    by (simp add: decodeStep_def decodeLiterals_def decodeMatch_def Let_def copyInto_def slice_def
        Uint16_def)
  then have "decodeLoop [0x10, 0x61, 0x00, 0x00] \<lparr>d_dst = [0, 0, 0, 0], d_srcPos = 0, d_dstPos = 0\<rparr>
       = (\<lparr>d_dst = [0x61, 0, 0, 0], d_srcPos = 2, d_dstPos = 1\<rparr>, Some ErrCorrupted)"
    by (subst decodeLoop.simps) simp
  with s show ?thesis by (simp add: decompressBlock_def)
qed

text \<open>
  C7, amended: \<open>decompressBlock\<close> fails with \<open>ErrCorrupted\<close> exactly when the sequence
  loop reaches a sequence whose 2-byte offset, read after the literals of that sequence
  have been copied, is 0 or exceeds the number of bytes decoded so far; it then returns
  that number, which counts the literals of the failing sequence, with the error.
\<close>

theorem C7_corrupted_iff:
  "((fst (snd (decompressBlock src dst)) = Some ErrCorrupted) =
      (\<exists>n st token st3.
          headState src \<lparr>d_dst = dst, d_srcPos = 0, d_dstPos = 0\<rparr> n = Some st
          \<and> d_srcPos st < length src
          \<and> decodeLiterals src st = LMatch token st3 \<and> badOffset src st3))
   \<and> (\<forall>n st token st3.
          headState src \<lparr>d_dst = dst, d_srcPos = 0, d_dstPos = 0\<rparr> n = Some st
          \<and> d_srcPos st < length src
          \<and> decodeLiterals src st = LMatch token st3 \<and> badOffset src st3
          \<longrightarrow> decompressBlock src dst = (d_dstPos st3, Some ErrCorrupted, d_dst st3))"
proof -
  define st0 where "st0 = \<lparr>d_dst = dst, d_srcPos = 0, d_dstPos = 0\<rparr>"
  have fwd: "decompressBlock src dst = (d_dstPos st3, Some ErrCorrupted, d_dst st3)"
    if "headState src st0 n = Some st" "d_srcPos st < length src"
       "decodeLiterals src st = LMatch token st3" "badOffset src st3" for n st token st3
  proof -
    from headState_decodeLoop [OF that(1)] decodeLoop_badOffset [OF that(2,3,4)]
    have "decodeLoop src st0 = (st3, Some ErrCorrupted)" by simp
    then show ?thesis by (simp add: decompressBlock_def st0_def)
  qed
  have bwd: "\<exists>n st token st3. headState src st0 n = Some st \<and> d_srcPos st < length src
          \<and> decodeLiterals src st = LMatch token st3 \<and> badOffset src st3"
    if "fst (snd (decompressBlock src dst)) = Some ErrCorrupted"
  proof -
    obtain stf err where l: "decodeLoop src st0 = (stf, err)" by (cases "decodeLoop src st0")
    with that have "err = Some ErrCorrupted" by (simp add: decompressBlock_def st0_def)
    with l decodeLoop_Corrupted [of src st0 stf] show ?thesis by blast
  qed
  have iff: "(fst (snd (decompressBlock src dst)) = Some ErrCorrupted) =
      (\<exists>n st token st3. headState src st0 n = Some st \<and> d_srcPos st < length src
          \<and> decodeLiterals src st = LMatch token st3 \<and> badOffset src st3)"
  proof (rule iffI)
    assume "fst (snd (decompressBlock src dst)) = Some ErrCorrupted"
    then show "\<exists>n st token st3. headState src st0 n = Some st \<and> d_srcPos st < length src
          \<and> decodeLiterals src st = LMatch token st3 \<and> badOffset src st3" by (rule bwd)
  next
    assume "\<exists>n st token st3. headState src st0 n = Some st \<and> d_srcPos st < length src
          \<and> decodeLiterals src st = LMatch token st3 \<and> badOffset src st3"
    then obtain n st token st3 where "headState src st0 n = Some st" "d_srcPos st < length src"
      "decodeLiterals src st = LMatch token st3" "badOffset src st3" by blast
    from fwd [OF this] show "fst (snd (decompressBlock src dst)) = Some ErrCorrupted" by simp
  qed
  have cnt: "\<forall>n st token st3. headState src st0 n = Some st \<and> d_srcPos st < length src
          \<and> decodeLiterals src st = LMatch token st3 \<and> badOffset src st3
          \<longrightarrow> decompressBlock src dst = (d_dstPos st3, Some ErrCorrupted, d_dst st3)"
    using fwd by blast
  show ?thesis
    unfolding st0_def [symmetric] using iff cnt by (rule conjI)
qed

theorem C7_corrupted_iff_witness:
  "fst (snd (decompressBlock [0x10, 0x61, 0x00, 0x00] [0, 0, 0, 0])) = Some ErrCorrupted
   \<and> decompressBlock [0x10, 0x61, 0x00, 0x00] [0, 0, 0, 0] = (1, Some ErrCorrupted, [0x61, 0, 0, 0])"
proof -
  define src :: "byte list" where "src = [0x10, 0x61, 0x00, 0x00]"
  define st0 where "st0 = \<lparr>d_dst = [0, 0, 0, 0 :: byte], d_srcPos = 0, d_dstPos = 0\<rparr>"
  define st3 where "st3 = \<lparr>d_dst = [0x61, 0, 0, 0 :: byte], d_srcPos = 2, d_dstPos = 1\<rparr>"
  have h: "headState src st0 0 = Some st0" by simp
  have p: "d_srcPos st0 < length src" by (simp add: st0_def src_def)
  have l: "decodeLiterals src st0 = LMatch 0x10 st3"
    by (simp add: decodeLiterals_def Let_def copyInto_def slice_def st0_def st3_def src_def)
  have b: "badOffset src st3"
    by (simp add: badOffset_def Uint16_def st3_def src_def)
  from C7_corrupted_iff [of src "[0, 0, 0, 0]"] h p l b
  have "decompressBlock src [0, 0, 0, 0] = (d_dstPos st3, Some ErrCorrupted, d_dst st3)"
    unfolding st0_def [symmetric] by blast
  then show ?thesis by (simp add: st3_def src_def)
qed

text \<open>
  C8: the frame header written by \<open>WriteFrameHeader\<close> is the seven bytes
  \<open>04 22 4D 18 60 70 73\<close>: the magic \<open>0x184D2204\<close> in little-endian order, FLG
  \<open>0x60\<close>, BD \<open>0x70\<close>, and the checksum byte, which is bits 8 to 15 of the xxHash32 of
  \<open>60 70\<close> at seed 0 and equals \<open>0x73\<close>.
\<close>

theorem C8_frame_header:
  "WriteFrameHeader w = w @ [0x04, 0x22, 0x4D, 0x18, 0x60, 0x70, 0x73]
   \<and> PutUint32 magic = [0x04, 0x22, 0x4D, 0x18] \<and> magic = 0x184D2204
   \<and> flgByte = 0x60 \<and> bdType = 0x70
   \<and> getHeaderChecksum [flgByte, bdType] = ucast (drop_bit 8 (xxHash32 0 [0x60, 0x70]) AND 0xFF)
   \<and> getHeaderChecksum [flgByte, bdType] = 0x73"
proof -
  have c: "getHeaderChecksum [flgByte, bdType] = 0x73"
    using frameHeader_bytes by (simp add: frameHeader_def PutUint32_magic)
  have "WriteFrameHeader w = w @ [0x04, 0x22, 0x4D, 0x18, 0x60, 0x70, 0x73]"
    by (simp add: WriteFrameHeader_eq frameHeader_def)
  moreover have "getHeaderChecksum [flgByte, bdType] = ucast (drop_bit 8 (xxHash32 0 [0x60, 0x70]) AND 0xFF)"
    by (simp add: getHeaderChecksum_def flgByte_def bdType_def)
  moreover have "magic = 0x184D2204" "flgByte = 0x60" "bdType = 0x70"
    by (simp_all add: magic_def flgByte_def bdType_def)
  ultimately show ?thesis using c PutUint32_magic by blast
qed

text \<open>
  C9: compressing the empty input gives the 11 bytes of the header followed by the
  end-mark \<open>00 00 00 00\<close>, written by \<open>Close\<close> alone; reading that stream with a
  non-empty buffer delivers no byte and no error at the first \<open>Read\<close>, which consumes
  the end-mark, and \<open>io.EOF\<close> from then on; \<open>DecompressStream\<close> returns the empty output.
\<close>

theorem C9_empty_stream:
  "CompressStream [] [] = ([0x04, 0x22, 0x4D, 0x18, 0x60, 0x70, 0x73, 0, 0, 0, 0], None)
   \<and> length (fst (CompressStream [] [])) = 11
   \<and> w_dst (Close (NewWriter [])) = [0x04, 0x22, 0x4D, 0x18, 0x60, 0x70, 0x73, 0, 0, 0, 0]
   \<and> (0 < plen \<longrightarrow>
        (\<exists>r. Read (NewReader (fst (CompressStream [] []))) plen = (r, [], None)
             \<and> Read r plen = (r, [], Some EOF)))
   \<and> DecompressStream (fst (CompressStream [] [])) [] = ([], None)"
proof -
  have e: "PutUint32 endMark = [0, 0, 0, 0]" by (simp add: PutUint32_def endMark_def)
  have cs: "CompressStream [] [] = ([0x04, 0x22, 0x4D, 0x18, 0x60, 0x70, 0x73, 0, 0, 0, 0], None)"
    by (simp add: CompressStream_ok frameHeader_def e)
  have cl: "w_dst (Close (NewWriter [])) = [0x04, 0x22, 0x4D, 0x18, 0x60, 0x70, 0x73, 0, 0, 0, 0]"
    by (simp add: Close_def NewWriter_def WriteFrameHeader_eq WriteFrameEndMark_def frameHeader_def e Let_def)
  have fr: "fst (CompressStream [] []) = frameHeader @ PutUint32 endMark @ []"
    by (simp add: cs frameHeader_def e)
  from ReadFrameHeader_frameHeader [of "PutUint32 endMark @ []"] obtain header where
    h: "ReadFrameHeader (frameHeader @ PutUint32 endMark @ []) = (Inr header, PutUint32 endMark @ [])"
      "checkHeader header = None" by blast
  define r1 where "r1 = \<lparr>r_src = [], r_leftover = [], r_leftoverPos = 0, r_eof = True, r_headerRead = True\<rparr>"
  have rd: "Read (NewReader (fst (CompressStream [] []))) plen = (r1, [], None)" if "0 < plen"
    unfolding fr using h that readBlock_endMark [of "[]"]
    by (simp add: Read_def NewReader_def readBody_def readLoop.simps [of _ plen "[]"] r1_def)
  have rd2: "Read r1 plen = (r1, [], Some EOF)" by (simp add: Read_def r1_def)
  have ds: "DecompressStream (fst (CompressStream [] [])) [] = ([], None)"
    unfolding fr using DecompressStream_frame [of "[]" "[]" "[]"] by simp
  from cs cl rd rd2 ds show ?thesis by auto
qed

theorem C9_empty_stream_witness:
  "0 < (65536 :: nat)
   \<and> (\<exists>r. Read (NewReader (fst (CompressStream [] []))) 65536 = (r, [], None)
           \<and> Read r 65536 = (r, [], Some EOF))"
proof -
  have "0 < (65536 :: nat)" by simp
  with C9_empty_stream [of 65536] show ?thesis by blast
qed

text \<open>
  C10: at the head of every iteration of the scan loop of \<open>compressBlock\<close>, for a block
  of at most \<open>maxBlockSize\<close> bytes, every cell of the hash table that is not the sentinel
  holds a position strictly below \<open>srcPos\<close>; so a match found in that iteration has an
  offset \<open>srcPos - ref\<close> between 1 and 65535 and repeats bytes that start at the earlier
  position \<open>ref\<close> of the same block.
\<close>

theorem C10_table_invariant:
  assumes "scanState src \<lparr>c_hashTable = (\<lambda>i. sentinel), c_dst = dst, c_dstPos = 0,
                           c_anchor = 0, c_srcPos = 0\<rparr> n = Some st"
    and "length src \<le> maxBlockSize"
  shows "(\<forall>h. c_hashTable st h \<noteq> sentinel \<longrightarrow> unat (c_hashTable st h) < c_srcPos st)
       \<and> (\<forall>hashTable' ref matchLen.
            scanGuard src st
            \<and> findMatch src (c_hashTable st) (c_srcPos st) = Inr (hashTable', Some (ref, matchLen))
            \<longrightarrow> unat ref < c_srcPos st
                \<and> 1 \<le> int (c_srcPos st) - int (unat ref)
                \<and> int (c_srcPos st) - int (unat ref) \<le> 65535
                \<and> c_srcPos st + matchLen \<le> length src
                \<and> (\<forall>k < matchLen. src ! (c_srcPos st + k) = src ! (unat ref + k)))"
proof -
  have small: "length src < 2 ^ 32" using assms(2) by (simp add: maxBlockSize_def)
  have t0: "tableOk (c_hashTable \<lparr>c_hashTable = (\<lambda>i. sentinel), c_dst = dst, c_dstPos = 0,
                           c_anchor = 0, c_srcPos = 0\<rparr>)
              (c_srcPos \<lparr>c_hashTable = (\<lambda>i. sentinel), c_dst = dst, c_dstPos = 0,
                           c_anchor = 0, c_srcPos = 0\<rparr>)"
    by (simp add: tableOk_def)
  from scanState_tableOk [OF assms(1) t0 small]
  have t: "tableOk (c_hashTable st) (c_srcPos st)" .
  have m: "unat ref < c_srcPos st
                \<and> 1 \<le> int (c_srcPos st) - int (unat ref)
                \<and> int (c_srcPos st) - int (unat ref) \<le> 65535
                \<and> c_srcPos st + matchLen \<le> length src
                \<and> (\<forall>k < matchLen. src ! (c_srcPos st + k) = src ! (unat ref + k))"
    if g: "scanGuard src st"
      and f: "findMatch src (c_hashTable st) (c_srcPos st) = Inr (hashTable', Some (ref, matchLen))"
    for hashTable' ref matchLen
  proof -
    from g have g': "c_srcPos st + minMatchLength \<le> length src" by (simp add: scanGuard_def)
    from findMatch_inv [OF t g' small] f have "matchOk src (c_srcPos st) ref matchLen" by auto
    then have mo: "unat ref < c_srcPos st" "c_srcPos st - unat ref \<le> 65535"
      "c_srcPos st + matchLen \<le> length src"
      "\<forall>k < matchLen. src ! (c_srcPos st + k) = src ! (unat ref + k)"
      by (simp_all add: matchOk_def)
    define d where "d = c_srcPos st - unat ref"
    have i: "int (c_srcPos st) - int (unat ref) = int d"
      unfolding d_def by (rule of_nat_diff [symmetric]) (use mo(1) in simp)
    have dl: "1 \<le> d" "d \<le> 65535" using mo(1,2) by (simp_all add: d_def)
    have "1 \<le> int d" "int d \<le> 65535" using dl by simp_all
    then show ?thesis unfolding i using mo(1,3,4) by blast
  qed
  from t m show ?thesis unfolding tableOk_def by blast
qed

theorem C10_table_invariant_witness:
  "scanState (replicate 8 0) \<lparr>c_hashTable = (\<lambda>i. sentinel), c_dst = [], c_dstPos = 0,
                           c_anchor = 0, c_srcPos = 0\<rparr> 1
     = Some \<lparr>c_hashTable = zeroTable 0, c_dst = [], c_dstPos = 0, c_anchor = 0, c_srcPos = 1\<rparr>
   \<and> length (replicate 8 (0 :: byte)) \<le> maxBlockSize
   \<and> findMatch (replicate 8 0) (zeroTable 0) 1 = Inr (zeroTable 1, Some (0, 7))
   \<and> unat (zeroTable 0 0) < 1
   \<and> unat (0 :: 32 word) < 1
   \<and> 1 \<le> int 1 - int (unat (0 :: 32 word))
   \<and> int 1 - int (unat (0 :: 32 word)) \<le> 65535"
proof -
  define src where "src = replicate 8 (0 :: byte)"
  define st0 where "st0 = \<lparr>c_hashTable = (\<lambda>i. sentinel), c_dst = ([] :: byte list), c_dstPos = 0,
                           c_anchor = 0, c_srcPos = (0 :: nat)\<rparr>"
  define st1 where "st1 = \<lparr>c_hashTable = zeroTable 0, c_dst = ([] :: byte list), c_dstPos = 0,
                           c_anchor = 0, c_srcPos = (1 :: nat)\<rparr>"
  have g0: "scanGuard src st0" by (simp add: scanGuard_def st0_def src_def minMatchLength_def)
  have g1: "scanGuard src st1" by (simp add: scanGuard_def st1_def src_def minMatchLength_def)
  have s0: "scanStep src st0 = Inr st1"
    using findMatch_zeros_first [of 8] by (simp add: scanStep_def st0_def st1_def src_def)
  have h: "scanState src st0 1 = Some st1" using g0 s0 by simp
  have len: "length src \<le> maxBlockSize" by (simp add: src_def maxBlockSize_def)
  have f: "findMatch src (c_hashTable st1) (c_srcPos st1) = Inr (zeroTable 1, Some (0, 7))"
    using findMatch_zeros_second [of 8] by (simp add: st1_def src_def)
  have ne: "c_hashTable st1 0 \<noteq> sentinel" by (simp add: st1_def zeroTable_def sentinel_def)
  from C10_table_invariant [OF h [unfolded st0_def] len] g1 f ne
  have "unat (c_hashTable st1 0) < c_srcPos st1
      \<and> unat (0 :: 32 word) < c_srcPos st1
      \<and> 1 \<le> int (c_srcPos st1) - int (unat (0 :: 32 word))
      \<and> int (c_srcPos st1) - int (unat (0 :: 32 word)) \<le> 65535"
    by blast
  with h len f show ?thesis by (simp add: st0_def st1_def src_def)
qed

end
